theory Spec2Isabelle
  imports Complex_Main "HOL-Library.Sublist"
begin

section \<open>Python values\<close>

text \<open>
  A Python \<^verbatim>\<open>str\<close> is a sequence of Unicode code points; it is modelled as a list of
  natural numbers, so that \<^verbatim>\<open>len\<close> is \<open>length\<close> and characters beyond Latin-1 are single
  elements, as in Python.  \<open>str\<close> turns an ASCII literal into such a list.
  A float (a score, a timestamp) is modelled by the rational number it denotes.
\<close>

type_synonym pstr = "nat list"

definition str :: "string \<Rightarrow> pstr" where
  "str s = map of_char s"

abbreviation TAB :: nat where "TAB \<equiv> 9"
abbreviation NL :: nat where "NL \<equiv> 10"
abbreviation CR :: nat where "CR \<equiv> 13"
abbreviation SP :: nat where "SP \<equiv> 32"

text \<open>
  The code points for which \<^verbatim>\<open>str.isspace()\<close> holds.  They are the characters removed by
  \<^verbatim>\<open>str.strip()\<close>, the separators of \<^verbatim>\<open>str.split()\<close>, and the characters that \<^verbatim>\<open>\s\<close>
  matches in a \<^verbatim>\<open>str\<close> pattern of the \<^verbatim>\<open>re\<close> module.
\<close>

definition is_space :: "nat \<Rightarrow> bool" where
  "is_space c \<longleftrightarrow>
     (9 \<le> c \<and> c \<le> 13) \<or> (28 \<le> c \<and> c \<le> 32) \<or> c = 0x85 \<or> c = 0xA0 \<or> c = 0x1680 \<or>
     (0x2000 \<le> c \<and> c \<le> 0x200A) \<or> c = 0x2028 \<or> c = 0x2029 \<or> c = 0x202F \<or>
     c = 0x205F \<or> c = 0x3000"

definition strip :: "pstr \<Rightarrow> pstr" where
  "strip s = rev (dropWhile is_space (rev (dropWhile is_space s)))"

text \<open>\<^verbatim>\<open>s.split('\n')\<close>: the pieces between newlines; never the empty list.\<close>

fun split_nl :: "pstr \<Rightarrow> pstr list" where
  "split_nl [] = [[]]"
| "split_nl (c # cs) =
     (if c = NL then [] # split_nl cs
      else (c # hd (split_nl cs)) # tl (split_nl cs))"

text \<open>\<^verbatim>\<open>sep.join(parts)\<close>.\<close>

fun join :: "pstr \<Rightarrow> pstr list \<Rightarrow> pstr" where
  "join sep [] = []"
| "join sep [l] = l"
| "join sep (l # ls) = l @ sep @ join sep ls"

text \<open>\<^verbatim>\<open>len(s.split())\<close>: the number of maximal runs of non-whitespace characters.\<close>

fun count_words :: "bool \<Rightarrow> pstr \<Rightarrow> nat" where
  "count_words inside [] = 0"
| "count_words inside (c # cs) =
     (if is_space c then count_words False cs
      else (if inside then 0 else 1) + count_words True cs)"

text \<open>\<^verbatim>\<open>pat in s\<close> for strings.\<close>

fun contains :: "pstr \<Rightarrow> pstr \<Rightarrow> bool" where
  "contains pat [] = (pat = [])"
| "contains pat (c # cs) = (prefix pat (c # cs) \<or> contains pat cs)"

text \<open>\<^verbatim>\<open>str(n)\<close> for a non-negative integer: its decimal digits.\<close>

function str_of_nat :: "nat \<Rightarrow> pstr" where
  "str_of_nat n = (if n < 10 then [48 + n] else str_of_nat (n div 10) @ [48 + n mod 10])"
  by pat_completeness auto
termination
  by (relation "measure id") auto

text \<open>
  \<^verbatim>\<open>str.lower()\<close> on the characters an HTTP header value can hold (header bytes are
  decoded as Latin-1): the ASCII capitals and the Latin-1 capitals move down by 32.
\<close>

definition lower_char :: "nat \<Rightarrow> nat" where
  "lower_char c =
     (if (65 \<le> c \<and> c \<le> 90) \<or> (0xC0 \<le> c \<and> c \<le> 0xDE \<and> c \<noteq> 0xD7) then c + 32 else c)"

definition lower :: "pstr \<Rightarrow> pstr" where
  "lower s = map lower_char s"

section \<open>Floating-point arithmetic\<close>

text \<open>
  A Python float is a binary64 number.  An arithmetic operation on floats, and the true
  division \<^verbatim>\<open>/\<close> of two integers, returns the exact result rounded to the nearest number
  with a significand of 53 bits, a tie going to the even significand.  \<open>fl\<close> is this
  rounding on the rationals.  The range of the exponent is left unbounded: the operations
  modelled here work on lengths and counts of a document and stay far inside it.
\<close>

text \<open>\<^verbatim>\<open>int.bit_length()\<close>.\<close>

function bit_length :: "int \<Rightarrow> nat" where
  "bit_length n = (if n \<le> 0 then 0 else Suc (bit_length (n div 2)))"
  by pat_completeness auto
termination
  by (relation "measure nat") auto

definition pow2 :: "int \<Rightarrow> rat" where
  "pow2 e = (if 0 \<le> e then 2 ^ nat e else 1 / 2 ^ nat (- e))"

text \<open>The exponent of a positive rational \<open>x\<close>: the largest \<open>e\<close> with \<open>2\<^sup>e \<le> x\<close>.\<close>

definition float_exponent :: "rat \<Rightarrow> int" where
  "float_exponent x =
     (case quotient_of x of
        (p, q) \<Rightarrow>
          (let e0 = int (bit_length p) - int (bit_length q)
           in if pow2 e0 \<le> x then e0 else e0 - 1))"

definition round_half_even :: "rat \<Rightarrow> int" where
  "round_half_even x =
     (let f = \<lfloor>x\<rfloor>; d = x - of_int f
      in if d < 1 / 2 then f else if 1 / 2 < d then f + 1 else if even f then f else f + 1)"

definition fl :: "rat \<Rightarrow> rat" where
  "fl x =
     (if x = 0 then 0
      else (let ulp = pow2 (float_exponent \<bar>x\<bar> - 52)
            in of_int (round_half_even (x / ulp)) * ulp))"

section \<open>Regular-expression substitution\<close>

text \<open>
  \<^verbatim>\<open>re.sub(pattern, repl, text)\<close> for a pattern that never matches the empty string and
  does not look outside its match: scan from the left; where the pattern matches at the
  current position, emit the replacement and continue after the match; otherwise emit the
  character and move one position on.  The pattern is given by its matcher, which returns
  the length of the (greedy, backtracking) match at the start of the remaining text.
\<close>

function re_sub :: "(pstr \<Rightarrow> nat option) \<Rightarrow> pstr \<Rightarrow> pstr \<Rightarrow> pstr" where
  "re_sub m repl [] = []"
| "re_sub m repl (c # cs) =
     (case m (c # cs) of
        Some (Suc n) \<Rightarrow> repl @ re_sub m repl (drop n cs)
      | _ \<Rightarrow> c # re_sub m repl cs)"
  by pat_completeness auto
termination
  by (relation "measure (\<lambda>(m, repl, s). length s)") auto

text \<open>\<^verbatim>\<open>\r\n|\r\<close>\<close>

fun m_line_ending :: "pstr \<Rightarrow> nat option" where
  "m_line_ending (c # d # cs) = (if c = CR then (if d = NL then Some 2 else Some 1) else None)"
| "m_line_ending [c] = (if c = CR then Some 1 else None)"
| "m_line_ending [] = None"

text \<open>\<^verbatim>\<open>\t\<close>, a pattern of one character \<open>c\<close>: that character.\<close>

fun m_char :: "nat \<Rightarrow> pstr \<Rightarrow> nat option" where
  "m_char c [] = None"
| "m_char c (x # xs) = (if x = c then Some 1 else None)"

text \<open>\<^verbatim>\<open>[c]{k,}\<close>: a maximal run of at least \<open>k\<close> copies of the character \<open>c\<close>.\<close>

definition m_run :: "nat \<Rightarrow> nat \<Rightarrow> pstr \<Rightarrow> nat option" where
  "m_run c k s = (let n = length (takeWhile (\<lambda>x. x = c) s) in if k \<le> n then Some n else None)"

text \<open>
  \<^verbatim>\<open>\n\s*\n\s*\n+\<close>: a newline followed by a run of whitespace that holds at least two
  more newlines.  The greedy match ends with the last newline of that run; whitespace
  after the last newline stays outside the match.
\<close>

definition m_newlines :: "pstr \<Rightarrow> nat option" where
  "m_newlines s =
     (case s of
        [] \<Rightarrow> None
      | c # cs \<Rightarrow>
          (let w = takeWhile is_space cs in
           if c = NL \<and> 2 \<le> count_list w NL
           then Some (1 + (length w - length (takeWhile (\<lambda>x. x \<noteq> NL) (rev w))))
           else None))"

text \<open>\<^verbatim>\<open> *\n *\<close>: a newline with the spaces before and after it.\<close>

definition m_newline_spaces :: "pstr \<Rightarrow> nat option" where
  "m_newline_spaces s =
     (let a = takeWhile (\<lambda>x. x = SP) s; rest = dropWhile (\<lambda>x. x = SP) s in
      case rest of
        [] \<Rightarrow> None
      | c # cs \<Rightarrow>
          if c = NL then Some (length a + 1 + length (takeWhile (\<lambda>x. x = SP) cs)) else None)"

section \<open>The text normalizer\<close>

text \<open>The loop of lines 372-376: strip each line, keep the empty and the substantial ones.\<close>

fun keep_lines :: "pstr list \<Rightarrow> pstr list" where
  "keep_lines [] = []"
| "keep_lines (line # lines) =
     (let line = strip line in
      if length line = 0 \<or> length line > 5 then line # keep_lines lines
      else keep_lines lines)"

text \<open>The loop of lines 381-388, with its counter of consecutive empty lines.\<close>

fun limit_empty :: "nat \<Rightarrow> pstr list \<Rightarrow> pstr list" where
  "limit_empty empty_count [] = []"
| "limit_empty empty_count (line # lines) =
     (if length line = 0
      then (if empty_count + 1 \<le> 1 then line # limit_empty (empty_count + 1) lines
            else limit_empty (empty_count + 1) lines)
      else line # limit_empty 0 lines)"

definition enhanced_text_cleaning :: "pstr \<Rightarrow> pstr" where
  "enhanced_text_cleaning text0 =
     (if text0 = [] then []
      else
        let text = re_sub m_line_ending [NL] text0;
            text = re_sub (m_char TAB) [SP] text;
            text = re_sub (m_run SP 2) [SP] text;
            text = re_sub m_newlines [NL, NL] text;
            text = re_sub m_newline_spaces [NL] text;
            text = re_sub (m_run 33 3) [33, 33, 33] text;
            text = re_sub (m_run 63 3) [63, 63, 63] text;
            text = re_sub (m_run 46 4) [46, 46, 46] text;
            lines = split_nl text;
            cleaned_lines = keep_lines lines;
            result_lines = limit_empty 0 cleaned_lines
        in strip (join [NL] result_lines))"

section \<open>The document tree\<close>

text \<open>
  The parsed HTML tree of BeautifulSoup: text strings, other strings that \<^verbatim>\<open>get_text()\<close>
  skips (comments, doctype), and elements with a tag name, attributes and children.
  \<^verbatim>\<open>decompose()\<close> detaches an element and empties it with all its descendants; Python
  references to such an element stay usable and see an element without contents.  The
  model keeps the position of a decomposed subtree as \<open>Decomposed\<close>, which every reading
  function skips, so that the positions of the other nodes do not shift.  An element
  object is a path (child indices from the root) into the current tree.
\<close>

datatype node =
    Text pstr
  | Comment pstr
  | Elem pstr "(pstr \<times> pstr) list" "node list"
  | Decomposed

type_synonym path = "nat list"

fun subtree :: "node \<Rightarrow> path \<Rightarrow> node" where
  "subtree t [] = t"
| "subtree (Elem n a cs) (i # p) = (if i < length cs then subtree (cs ! i) p else Decomposed)"
| "subtree t (i # p) = Decomposed"

fun decompose :: "path \<Rightarrow> node \<Rightarrow> node" where
  "decompose [] t = Decomposed"
| "decompose (i # p) (Elem n a cs) =
     (if i < length cs then Elem n a (cs[i := decompose p (cs ! i)]) else Elem n a cs)"
| "decompose (i # p) t = t"

fun get_text :: "node \<Rightarrow> pstr" where
  "get_text (Text s) = s"
| "get_text (Comment s) = []"
| "get_text (Elem n a cs) = concat (map get_text cs)"
| "get_text Decomposed = []"

text \<open>
  The descendants of a node that satisfy a test, in document order, as paths relative to
  the node (the node itself is not a candidate), as \<^verbatim>\<open>find_all\<close> and \<^verbatim>\<open>select\<close> return them.
\<close>

fun find_paths :: "(node \<Rightarrow> bool) \<Rightarrow> node \<Rightarrow> path list"
  and find_paths_list :: "(node \<Rightarrow> bool) \<Rightarrow> nat \<Rightarrow> node list \<Rightarrow> path list" where
  "find_paths P (Elem n a cs) = find_paths_list P 0 cs"
| "find_paths P (Text s) = []"
| "find_paths P (Comment s) = []"
| "find_paths P Decomposed = []"
| "find_paths_list P i [] = []"
| "find_paths_list P i (c # cs) =
     (if P c then [[i]] else []) @ map ((#) i) (find_paths P c) @ find_paths_list P (Suc i) cs"

fun has_tag :: "pstr list \<Rightarrow> node \<Rightarrow> bool" where
  "has_tag names (Elem n a cs) = (n \<in> set names)"
| "has_tag names t = False"

definition find_all :: "pstr list \<Rightarrow> node \<Rightarrow> path list" where
  "find_all names t = find_paths (has_tag names) t"

text \<open>\<^verbatim>\<open>element.get(key, default)\<close>; the parser keeps the last of duplicated attributes.\<close>

fun get_attr :: "node \<Rightarrow> pstr \<Rightarrow> pstr option" where
  "get_attr (Elem n a cs) key = map_of (rev a) key"
| "get_attr t key = None"

text \<open>The tokens of a class attribute: \<^verbatim>\<open>element.get('class', [])\<close>.\<close>

fun words :: "pstr \<Rightarrow> pstr \<Rightarrow> pstr list" where
  "words cur [] = (if cur = [] then [] else [cur])"
| "words cur (c # cs) =
     (if is_space c then (if cur = [] then [] else [cur]) @ words [] cs
      else words (cur @ [c]) cs)"

definition classes_of :: "node \<Rightarrow> pstr list" where
  "classes_of t = (case get_attr t (str ''class'') of None \<Rightarrow> [] | Some v \<Rightarrow> words [] v)"

section \<open>Sanitizing the tree (lines 496-505 of \<^verbatim>\<open>scrape_article\<close>)\<close>

datatype selector = Tag pstr | Class pstr | Id pstr

fun matches :: "selector \<Rightarrow> node \<Rightarrow> bool" where
  "matches (Tag n) t = has_tag [n] t"
| "matches (Class c) t = (c \<in> set (classes_of t))"
| "matches (Id i) t = (get_attr t (str ''id'') = Some i)"

definition select :: "selector \<Rightarrow> node \<Rightarrow> path list" where
  "select sel t = find_paths (matches sel) t"

definition unwanted_selectors :: "selector list" where
  "unwanted_selectors =
     [Tag (str ''script''), Tag (str ''style''), Tag (str ''nav''), Tag (str ''header''),
      Tag (str ''footer''), Tag (str ''aside''),
      Class (str ''advertisement''), Class (str ''ad''), Class (str ''sidebar''),
      Class (str ''comments''), Class (str ''social-share''),
      Class (str ''related-articles''), Id (str ''comments'')]"

definition sanitize :: "node \<Rightarrow> node" where
  "sanitize soup =
     fold (\<lambda>selector soup. fold decompose (select selector soup) soup) unwanted_selectors soup"

section \<open>Extraction strategies\<close>

record element_metadata =
  element_type :: pstr
  element_id :: pstr
  element_classes :: pstr
  text_length :: nat
  word_count :: nat
  paragraph_count :: nat
  header_count :: nat
  link_count :: nat

text \<open>
  Exceptions.  The classes of \<^verbatim>\<open>requests.exceptions\<close> that the handlers of
  \<^verbatim>\<open>scrape_article\<close> tell apart: \<open>ConnectTimeout\<close> is both a \<open>Timeout\<close> and a
  \<open>ConnectionError\<close>; \<open>HTTPError\<close> carries its attribute \<^verbatim>\<open>response\<close>, which is the response
  when \<^verbatim>\<open>raise_for_status()\<close> raised the exception and \<open>None\<close> when the exception was built
  without one; \<open>RequestException\<close> stands for the remaining subclasses, \<open>PyException\<close> for
  every exception outside \<^verbatim>\<open>requests\<close>.  The last two carry \<^verbatim>\<open>str(e)\<close>.
\<close>

record response =
  resp_status_code :: nat
  resp_content_type :: "pstr option"
  resp_content :: "nat list"

datatype exn =
    Timeout
  | ConnectionError
  | ConnectTimeout
  | HTTPError "response option"
  | RequestException pstr
  | PyException pstr

fun is_RequestException :: "exn \<Rightarrow> bool" where
  "is_RequestException (PyException msg) = False"
| "is_RequestException e = True"

text \<open>\<^verbatim>\<open>extract_element_metadata\<close>; an element that is no live tag has no \<^verbatim>\<open>name\<close>.\<close>

definition header_tags :: "pstr list" where
  "header_tags = [str ''h1'', str ''h2'', str ''h3'', str ''h4'', str ''h5'', str ''h6'']"

fun extract_element_metadata :: "node \<Rightarrow> exn + element_metadata" where
  "extract_element_metadata (Elem n a cs) =
     (let element = Elem n a cs; text = get_text element in
      Inr \<lparr> element_type = n,
            element_id = (case get_attr element (str ''id'') of None \<Rightarrow> [] | Some v \<Rightarrow> v),
            element_classes = join [SP] (classes_of element),
            text_length = length text,
            word_count = count_words False text,
            paragraph_count = length (find_all [str ''p''] element),
            header_count = length (find_all header_tags element),
            link_count = length (find_all [str ''a''] element) \<rparr>)"
| "extract_element_metadata t = Inl (PyException (str ''AttributeError''))"

text \<open>
  A strategy returns \<^verbatim>\<open>(content, metadata, score)\<close> or raises, and may change the tree it
  is given; the empty dictionary \<^verbatim>\<open>{}\<close> is \<open>None\<close>.
\<close>

type_synonym candidate = "pstr \<times> element_metadata option \<times> rat"
type_synonym strategy = "node \<Rightarrow> (exn + candidate) \<times> node"

text \<open>
  The score of one candidate in \<^verbatim>\<open>_extract_by_length_heuristics\<close> (lines 198-213).  The
  two divisions of integers and the operations that have a float operand round their
  result; \<^verbatim>\<open>len(paragraphs) * 2\<close> and the two \<^verbatim>\<open>min\<close> do not.
\<close>

definition length_heuristic_score :: "node \<Rightarrow> rat" where
  "length_heuristic_score element =
     (let text = get_text element;
          length_score = min (fl (of_nat (length text) / 100)) 50;
          paragraphs = find_all [str ''p''] element;
          para_score = min (of_nat (length paragraphs) * 2) 30;
          links = find_all [str ''a''] element;
          link_text = sum_list (map (\<lambda>link. length (get_text (subtree element link))) links);
          link_ratio = (if length text > 0 then fl (of_nat link_text / of_nat (length text)) else 1);
          link_penalty = fl (link_ratio * 20)
      in fl (fl (length_score + para_score) - link_penalty))"

definition unwanted_tags :: "pstr list" where
  "unwanted_tags = [str ''nav'', str ''aside'', str ''footer'', str ''header'']"

text \<open>Lines 195-196: decompose the unwanted descendants of one candidate.\<close>

definition remove_unwanted :: "path \<Rightarrow> node \<Rightarrow> node" where
  "remove_unwanted element soup =
     fold (\<lambda>unwanted soup. decompose (element @ unwanted) soup)
       (find_all unwanted_tags (subtree soup element)) soup"

text \<open>The loop of lines 193-217 over the candidates, threading the tree it mutates.\<close>

fun length_heuristics_loop ::
  "path list \<Rightarrow> node \<Rightarrow> path option \<Rightarrow> rat \<Rightarrow> node \<times> path option \<times> rat" where
  "length_heuristics_loop [] soup best_element best_score = (soup, best_element, best_score)"
| "length_heuristics_loop (element # candidates) soup best_element best_score =
     (let soup1 = remove_unwanted element soup;
          total_score = length_heuristic_score (subtree soup1 element)
      in if total_score > best_score
         then length_heuristics_loop candidates soup1 (Some element) total_score
         else length_heuristics_loop candidates soup1 best_element best_score)"

text \<open>
  \<^verbatim>\<open>_extract_by_length_heuristics\<close>.  A tag object is always truthy, so
  \<^verbatim>\<open>if best_element:\<close> tests for \<open>None\<close>.
\<close>

definition candidate_tags :: "pstr list" where
  "candidate_tags = [str ''div'', str ''section'', str ''article'', str ''main'']"

definition extract_by_length_heuristics :: strategy where
  "extract_by_length_heuristics soup =
     (let candidates = find_all candidate_tags soup in
      case length_heuristics_loop candidates soup None 0 of
        (soup1, Some best_element, best_score) \<Rightarrow>
          (let element = subtree soup1 best_element;
               content = enhanced_text_cleaning (get_text element)
           in case extract_element_metadata element of
                Inl e \<Rightarrow> (Inl e, soup1)
              | Inr metadata \<Rightarrow> (Inr (content, Some metadata, best_score), soup1))
      | (soup1, None, best_score) \<Rightarrow> (Inr ([], None, 0), soup1))"

text \<open>
  The other three strategies call only reading functions of the tree
  (\<^verbatim>\<open>select\<close>, \<^verbatim>\<open>find_all\<close>, \<^verbatim>\<open>get_text\<close>, \<^verbatim>\<open>get\<close>, \<^verbatim>\<open>str\<close>).  Their scoring is not
  modelled: each one is an arbitrary function from the tree to a candidate or an
  exception, and runs as a strategy that hands the tree back as it got it.
\<close>

definition reading :: "(node \<Rightarrow> exn + candidate) \<Rightarrow> strategy" where
  "reading f soup = (f soup, soup)"

record readers =
  extract_semantic_content :: "node \<Rightarrow> exn + candidate"
  extract_by_text_density :: "node \<Rightarrow> exn + candidate"
  extract_readability_content :: "node \<Rightarrow> exn + candidate"

definition extraction_strategies :: "readers \<Rightarrow> strategy list" where
  "extraction_strategies rd =
     [reading (extract_semantic_content rd),
      extract_by_length_heuristics,
      reading (extract_by_text_density rd),
      reading (extract_readability_content rd)]"

text \<open>
  The loop of \<^verbatim>\<open>advanced_content_extraction\<close> (lines 140-148): a strategy that raises is
  skipped; the tree each strategy leaves is the tree the next one receives.
\<close>

fun strategies_loop ::
  "strategy list \<Rightarrow> node \<Rightarrow> pstr \<times> rat \<times> element_metadata option \<Rightarrow>
     (pstr \<times> rat \<times> element_metadata option) \<times> node" where
  "strategies_loop [] soup best = (best, soup)"
| "strategies_loop (strategy # rest) soup (best_content, best_score, best_metadata) =
     (case strategy soup of
        (Inr (content, metadata, score), soup1) \<Rightarrow>
          if score > best_score \<and> length content > 200
          then strategies_loop rest soup1 (content, score, metadata)
          else strategies_loop rest soup1 (best_content, best_score, best_metadata)
      | (Inl e, soup1) \<Rightarrow> strategies_loop rest soup1 (best_content, best_score, best_metadata))"

definition run_strategies :: "strategy list \<Rightarrow> node \<Rightarrow> (pstr \<times> element_metadata option) \<times> node" where
  "run_strategies strategies soup =
     (case strategies_loop strategies soup ([], 0, None) of
        ((best_content, best_score, best_metadata), soup1) \<Rightarrow>
          ((best_content, best_metadata), soup1))"

definition advanced_content_extraction ::
  "readers \<Rightarrow> node \<Rightarrow> (pstr \<times> element_metadata option) \<times> node" where
  "advanced_content_extraction rd soup = run_strategies (extraction_strategies rd) soup"

section \<open>URL validation\<close>

text \<open>
  How \<^verbatim>\<open>re.search(pattern, url, re.IGNORECASE)\<close> compares one character of a literal
  pattern with one character of the text: equal, or the capital of a lower-case ASCII
  letter, or one of the non-ASCII characters that CPython folds onto an ASCII letter
  (U+0130 and U+0131 onto \<open>i\<close>, U+017F onto \<open>s\<close>, U+212A onto \<open>k\<close>).
\<close>

definition ci_matches :: "nat \<Rightarrow> nat \<Rightarrow> bool" where
  "ci_matches l c \<longleftrightarrow>
     c = l \<or> (97 \<le> l \<and> l \<le> 122 \<and> c + 32 = l) \<or>
     (l = 105 \<and> (c = 0x130 \<or> c = 0x131)) \<or> (l = 115 \<and> c = 0x17F) \<or>
     (l = 107 \<and> c = 0x212A)"

fun ci_prefix :: "pstr \<Rightarrow> pstr \<Rightarrow> bool" where
  "ci_prefix [] s = True"
| "ci_prefix (l # ls) [] = False"
| "ci_prefix (l # ls) (c # cs) = (ci_matches l c \<and> ci_prefix ls cs)"

fun ci_search :: "pstr \<Rightarrow> pstr \<Rightarrow> bool" where
  "ci_search pat [] = ci_prefix pat []"
| "ci_search pat (c # cs) = (ci_prefix pat (c # cs) \<or> ci_search pat cs)"

text \<open>
  The class \<^verbatim>\<open>[^\x00-\x7F]\<close> under \<^verbatim>\<open>re.IGNORECASE\<close>: a character is outside the class
  when it is ASCII or folds onto an ASCII letter, so the four characters above are
  not matched although they are not ASCII.
\<close>

definition non_ascii_ci :: "nat \<Rightarrow> bool" where
  "non_ascii_ci c \<longleftrightarrow> c > 127 \<and> c \<noteq> 0x130 \<and> c \<noteq> 0x131 \<and> c \<noteq> 0x17F \<and> c \<noteq> 0x212A"

definition suspicious_patterns :: "(pstr \<Rightarrow> bool) list" where
  "suspicious_patterns =
     [list_ex non_ascii_ci,
      ci_search (str ''javascript:''),
      ci_search (str ''data:''),
      ci_search (str ''file:'')]"

text \<open>
  \<^verbatim>\<open>is_valid_url\<close>.  \<^verbatim>\<open>urlparse\<close> belongs to the Python library and is a parameter: it
  returns the scheme and the network location of a URL, or raises; the bare \<^verbatim>\<open>except\<close>
  turns every exception into \<open>False\<close>.
\<close>

type_synonym urlparser = "pstr \<Rightarrow> exn + (pstr \<times> pstr)"

definition is_valid_url :: "urlparser \<Rightarrow> pstr \<Rightarrow> bool" where
  "is_valid_url urlparse url =
     (case urlparse url of
        Inl e \<Rightarrow> False
      | Inr (scheme, netloc) \<Rightarrow>
          if \<not> (scheme \<in> set [str ''http'', str ''https''] \<and> netloc \<noteq> []) then False
          else if list_ex (\<lambda>pattern. pattern url) suspicious_patterns then False
          else True)"

section \<open>Fetching with retries (lines 475-486)\<close>

text \<open>What one call of \<^verbatim>\<open>scrape_article\<close> does to the outside: the calls of
  \<^verbatim>\<open>session.get\<close> and the back-off sleeps, in order.\<close>

record trace =
  gets :: nat
  sleeps :: "nat list"

definition no_trace :: trace where
  "no_trace = \<lparr> gets = 0, sleeps = [] \<rparr>"

definition raise_for_status :: "response \<Rightarrow> exn + unit" where
  "raise_for_status r =
     (if 400 \<le> resp_status_code r \<and> resp_status_code r < 600 then Inl (HTTPError (Some r))
      else Inr ())"

text \<open>
  The body of the \<^verbatim>\<open>for attempt in range(max_retries)\<close> loop.  \<open>get attempt\<close> is what the
  call of \<^verbatim>\<open>session.get\<close> in that attempt does: it returns a response or raises.
  The result is the exception that leaves the loop, or the value of the variable
  \<^verbatim>\<open>response\<close> after it.
\<close>

fun fetch_loop ::
  "(nat \<Rightarrow> exn + response) \<Rightarrow> nat \<Rightarrow> nat list \<Rightarrow> response option \<Rightarrow> trace \<Rightarrow>
     (exn + response option) \<times> trace" where
  "fetch_loop get max_retries [] response tr = (Inr response, tr)"
| "fetch_loop get max_retries (attempt # rest) response tr =
     (let tr1 = tr\<lparr>gets := gets tr + 1\<rparr> in
      case get attempt of
        Inl e \<Rightarrow>
          if is_RequestException e
          then (if attempt = max_retries - 1 then (Inl e, tr1)
                else fetch_loop get max_retries rest response
                       (tr1\<lparr>sleeps := sleeps tr1 @ [2 ^ attempt]\<rparr>))
          else (Inl e, tr1)
      | Inr r \<Rightarrow>
          (case raise_for_status r of
             Inr u \<Rightarrow> (Inr (Some r), tr1)
           | Inl e \<Rightarrow>
               if is_RequestException e
               then (if attempt = max_retries - 1 then (Inl e, tr1)
                     else fetch_loop get max_retries rest (Some r)
                            (tr1\<lparr>sleeps := sleeps tr1 @ [2 ^ attempt]\<rparr>))
               else (Inl e, tr1)))"

definition fetch :: "(nat \<Rightarrow> exn + response) \<Rightarrow> trace \<Rightarrow> (exn + response option) \<times> trace" where
  "fetch get tr = (let max_retries = 3 in fetch_loop get max_retries [0..<max_retries] None tr)"

section \<open>The result cache\<close>

text \<open>
  \<^verbatim>\<open>extraction_cache\<close> is a Python dictionary from the hash of a URL to the pair of a
  timestamp and the formatted result.  A dictionary iterates in insertion order, which
  decides which of several oldest entries \<^verbatim>\<open>min\<close> picks, so it is an association list
  with distinct keys: assigning to a present key keeps its place, a new key goes last.
\<close>

type_synonym cache = "(pstr \<times> rat \<times> pstr) list"

fun dict_set :: "('k \<times> 'v) list \<Rightarrow> 'k \<Rightarrow> 'v \<Rightarrow> ('k \<times> 'v) list" where
  "dict_set [] k v = [(k, v)]"
| "dict_set ((k1, v1) # d) k v = (if k1 = k then (k, v) # d else (k1, v1) # dict_set d k v)"

fun dict_del :: "('k \<times> 'v) list \<Rightarrow> 'k \<Rightarrow> ('k \<times> 'v) list" where
  "dict_del [] k = []"
| "dict_del ((k1, v1) # d) k = (if k1 = k then d else (k1, v1) # dict_del d k)"

text \<open>\<^verbatim>\<open>min(iterable, key=f)\<close> keeps the first of the smallest elements.\<close>

fun min_by :: "('a \<Rightarrow> rat) \<Rightarrow> 'a \<Rightarrow> 'a list \<Rightarrow> 'a" where
  "min_by f best [] = best"
| "min_by f best (x # xs) = (if f x < f best then min_by f x xs else min_by f best xs)"

definition timestamp_of :: "cache \<Rightarrow> pstr \<Rightarrow> rat" where
  "timestamp_of c k = (case map_of c k of Some (t, r) \<Rightarrow> t | None \<Rightarrow> 0)"

text \<open>Lines 545-552: write the entry, then drop the oldest one if there are more than 50.\<close>

definition cache_store :: "cache \<Rightarrow> pstr \<Rightarrow> rat \<Rightarrow> pstr \<Rightarrow> cache" where
  "cache_store c url_hash now final_content =
     (let c1 = dict_set c url_hash (now, final_content) in
      if length c1 > 50
      then (case map fst c1 of
              [] \<Rightarrow> c1
            | k # ks \<Rightarrow> (let oldest_key = min_by (timestamp_of c1) k ks in dict_del c1 oldest_key))
      else c1)"

section \<open>\<^verbatim>\<open>scrape_article\<close>\<close>

text \<open>
  The messages, character by character as the string literals of the source file hold
  them; the characters outside ASCII at their start are given by code point.
\<close>

definition invalid_url_message :: pstr where
  "invalid_url_message =
     [0x201A, 0xF9, 0xE5] @
     str '' Invalid URL format. Please enter a valid URL starting with http:// or https://''"

definition cached_marker :: pstr where
  "cached_marker = [0xF8FF, 0xFC, 0xEC, 0xE3] @ str '' [Cached] ''"

definition invalid_content_type_message :: "pstr \<Rightarrow> pstr" where
  "invalid_content_type_message ct =
     [0x201A, 0xF9, 0xE5] @ str '' Invalid content type: '' @ ct @ str ''. This appears to be a '' @
     takeWhile (\<lambda>c. c \<noteq> 47) ct @ str '' file, not a webpage.''"

definition insufficient_content_message :: pstr where
  "insufficient_content_message =
     [0x201A, 0xF9, 0xE5] @
     str '' Could not extract significant content. This page might use dynamic loading, be behind a paywall, or contain primarily multimedia content.''"

definition timeout_message :: pstr where
  "timeout_message =
     [0x201A, 0xE8, 0x221E] @
     str '' Request timed out. The website is taking too long to respond.''"

definition connection_message :: pstr where
  "connection_message =
     [0xF8FF, 0xFC, 0xE5, 0xEA] @
     str '' Connection failed. Please check your internet connection or try again later.''"

text \<open>
  The message of the \<^verbatim>\<open>AttributeError\<close> that reading an attribute of \<open>None\<close> raises.
\<close>

definition none_has_no_attribute :: "pstr \<Rightarrow> pstr" where
  "none_has_no_attribute name =
     [39] @ str ''NoneType'' @ [39] @ str '' object has no attribute '' @ [39] @ name @ [39]"

text \<open>
  The handlers of lines 556-573 in their order: the first clause whose class the exception
  belongs to decides, so a \<open>ConnectTimeout\<close> is reported as a timeout.  A handler returns
  its message; the handler of \<open>HTTPError\<close> first reads \<^verbatim>\<open>e.response.status_code\<close> (line 561),
  which raises when the exception has no response, and an exception raised in a handler
  is not caught by the handlers after it.
\<close>

fun handle_exception :: "exn \<Rightarrow> exn + pstr" where
  "handle_exception Timeout = Inr timeout_message"
| "handle_exception ConnectTimeout = Inr timeout_message"
| "handle_exception ConnectionError = Inr connection_message"
| "handle_exception (HTTPError None) =
     Inl (PyException (none_has_no_attribute (str ''status_code'')))"
| "handle_exception (HTTPError (Some response)) =
     (let status_code = resp_status_code response in
      if status_code = 403
        then Inr ([0xF8FF, 0xFC, 0xF6, 0xB4] @
                  str '' Access denied. The website is blocking automated requests.'')
      else if status_code = 404
        then Inr ([0xF8FF, 0xFC, 0xEE, 0xE7] @
                  str '' Page not found. Please verify the URL is correct.'')
      else if status_code = 429
        then Inr ([0x201A, 0xE8, 0xB1, 0xD4, 0x220F, 0xE8] @
                  str '' Rate limited. The website is temporarily blocking requests. Try again later.'')
      else if status_code \<ge> 500
        then Inr ([0xF8FF, 0xFC, 0xEE, 0xDF] @ str '' Server error ('' @ str_of_nat status_code @
                  str ''). The website is experiencing technical difficulties.'')
      else Inr ([0xF8FF, 0xFC, 0xEC, 0xD1] @ str '' HTTP error '' @ str_of_nat status_code @
                str ''. The website returned an error response.''))"
| "handle_exception (RequestException msg) =
     Inr ([0x201A, 0xF6, 0x2020, 0xD4, 0x220F, 0xE8] @ str '' Unexpected error: '' @ msg)"
| "handle_exception (PyException msg) =
     Inr ([0x201A, 0xF6, 0x2020, 0xD4, 0x220F, 0xE8] @ str '' Unexpected error: '' @ msg)"

text \<open>
  The page metadata that the result shows, as \<^verbatim>\<open>metadata.get(...)\<close> returns it; a missing
  or empty field adds no line.
\<close>

record page_metadata =
  meta_title :: "pstr option"
  meta_author :: "pstr option"
  meta_publish_date :: "pstr option"
  meta_description :: "pstr option"

definition part_if :: "pstr option \<Rightarrow> (pstr \<Rightarrow> pstr) \<Rightarrow> pstr list" where
  "part_if field line =
     (case field of None \<Rightarrow> [] | Some v \<Rightarrow> if v = [] then [] else [line v])"

text \<open>Lines 517-543.\<close>

definition format_result :: "page_metadata \<Rightarrow> pstr \<Rightarrow> element_metadata option \<Rightarrow> pstr" where
  "format_result metadata content content_metadata =
     (let result_parts =
            part_if (meta_title metadata)
              (\<lambda>v. [0xF8FF, 0xFC, 0xEC, 0x221E] @ str '' **'' @ v @ str ''**'' @ [NL]) @
            part_if (meta_author metadata)
              (\<lambda>v. [0x201A, 0xFA, 0xE7, 0xD4, 0x220F, 0xE8] @ str '' Author: '' @ v) @
            part_if (meta_publish_date metadata)
              (\<lambda>v. [0xF8FF, 0xFC, 0xEC, 0xD6] @ str '' Published: '' @ take 10 v) @
            part_if (meta_description metadata)
              (\<lambda>v. [0xF8FF, 0xFC, 0xEC, 0xF9] @ str '' Description: '' @ v);
          result_parts = result_parts @
            (if result_parts \<noteq> [] then [concat (replicate 60 [0x201A, 0xEE, 0xC4])] else []);
          result_parts = result_parts @ [content];
          result_parts = result_parts @
            (case content_metadata of
               None \<Rightarrow> []
             | Some cm \<Rightarrow>
                 [[NL] @ [0xF8FF, 0xFC, 0xEC, 0xE4] @ str '' Extracted from '' @ element_type cm @
                    str '' element'',
                  [0xF8FF, 0xFC, 0xEC, 0xE8] @ str '' Content: '' @ str_of_nat (word_count cm) @
                    str '' words, '' @
                  str_of_nat (paragraph_count cm) @ str '' paragraphs''])
      in join [NL] result_parts)"

text \<open>
  Everything outside the program that one call of \<^verbatim>\<open>scrape_article\<close> meets: the library
  functions \<^verbatim>\<open>urlparse\<close> and \<^verbatim>\<open>hashlib.md5(...).hexdigest()\<close> (taken on the code points of
  the URL), the two readings of \<^verbatim>\<open>time.time()\<close> (cache check, cache write),
  \<^verbatim>\<open>get_random_headers\<close> (which may raise), the outcome of each \<^verbatim>\<open>session.get\<close>, the HTML
  parser, and the readers of the tree whose results are not modelled
  (\<^verbatim>\<open>extract_comprehensive_metadata\<close> and three of the strategies).
\<close>

record env =
  env_urlparse :: urlparser
  env_md5_hexdigest :: "pstr \<Rightarrow> pstr"
  env_time_lookup :: rat
  env_time_store :: rat
  env_get_random_headers :: "exn + unit"
  env_session_get :: "nat \<Rightarrow> exn + response"
  env_parse_html :: "nat list \<Rightarrow> exn + node"
  env_extract_comprehensive_metadata :: "node \<Rightarrow> exn + page_metadata"
  env_readers :: readers

text \<open>Lines 493-554: parse, sanitize, extract, format, and write the cache.\<close>

definition extract_and_store :: "env \<Rightarrow> cache \<Rightarrow> pstr \<Rightarrow> response \<Rightarrow> (exn + pstr) \<times> cache" where
  "extract_and_store e cache url_hash response =
     (case env_parse_html e (resp_content response) of
        Inl ex \<Rightarrow> (Inl ex, cache)
      | Inr parsed \<Rightarrow>
          (let soup = sanitize parsed in
           case env_extract_comprehensive_metadata e soup of
             Inl ex \<Rightarrow> (Inl ex, cache)
           | Inr metadata \<Rightarrow>
               (case advanced_content_extraction (env_readers e) soup of
                  ((content, content_metadata), soup1) \<Rightarrow>
                    if length content < 150 then (Inr insufficient_content_message, cache)
                    else
                      (let final_content = format_result metadata content content_metadata
                       in (Inr final_content,
                           cache_store cache url_hash (env_time_store e) final_content)))))"

text \<open>
  Lines 488-491 and what follows them: \<^verbatim>\<open>response.headers.get('content-type', '')\<close> in
  lower case must contain \<^verbatim>\<open>text/html\<close>.
\<close>

definition process_response :: "env \<Rightarrow> cache \<Rightarrow> pstr \<Rightarrow> response \<Rightarrow> (exn + pstr) \<times> cache" where
  "process_response e cache url_hash response =
     (let ct = lower (case resp_content_type response of None \<Rightarrow> [] | Some v \<Rightarrow> v) in
      if \<not> contains (str ''text/html'') ct then (Inr (invalid_content_type_message ct), cache)
      else extract_and_store e cache url_hash response)"

text \<open>The body of the \<^verbatim>\<open>try\<close> block, lines 472-554.\<close>

definition try_block :: "env \<Rightarrow> cache \<Rightarrow> pstr \<Rightarrow> (exn + pstr) \<times> cache \<times> trace" where
  "try_block e cache url_hash =
     (case env_get_random_headers e of
        Inl ex \<Rightarrow> (Inl ex, cache, no_trace)
      | Inr headers \<Rightarrow>
          (case fetch (env_session_get e) no_trace of
             (Inl ex, tr) \<Rightarrow> (Inl ex, cache, tr)
           | (Inr None, tr) \<Rightarrow>
               (Inl (PyException (none_has_no_attribute (str ''headers''))), cache, tr)
           | (Inr (Some response), tr) \<Rightarrow>
               (case process_response e cache url_hash response of
                  (res, cache1) \<Rightarrow> (res, cache1, tr))))"

text \<open>\<^verbatim>\<open>url.encode()\<close> raises on a lone surrogate.\<close>

definition is_surrogate :: "nat \<Rightarrow> bool" where
  "is_surrogate c \<longleftrightarrow> 0xD800 \<le> c \<and> c \<le> 0xDFFF"

text \<open>
  The \<^verbatim>\<open>try\<close> statement with its handlers: an exception of the block goes to its handler,
  and what the handler returns or raises is the outcome.
\<close>

definition try_except :: "env \<Rightarrow> cache \<Rightarrow> pstr \<Rightarrow> (exn + pstr) \<times> cache \<times> trace" where
  "try_except e cache url_hash =
     (case try_block e cache url_hash of
        (Inr result, cache1, tr) \<Rightarrow> (Inr result, cache1, tr)
      | (Inl ex, cache1, tr) \<Rightarrow> (handle_exception ex, cache1, tr))"

text \<open>Lines 466-468: the cached content, if the entry exists and is younger than an hour.\<close>

definition cache_hit :: "env \<Rightarrow> cache \<Rightarrow> pstr \<Rightarrow> pstr option" where
  "cache_hit e cache url_hash =
     (case map_of cache url_hash of
        None \<Rightarrow> None
      | Some (cached_time, cached_content) \<Rightarrow>
          if env_time_lookup e - cached_time < 3600 then Some cached_content else None)"

text \<open>
  \<^verbatim>\<open>scrape_article\<close>: the value returned or the exception that escapes to the caller, the
  cache afterwards, and the network calls made.  The validity check, the hash and the
  cache lookup stand before the \<^verbatim>\<open>try\<close>; an exception there would escape.
\<close>

definition scrape_article :: "env \<Rightarrow> cache \<Rightarrow> pstr \<Rightarrow> (exn + pstr) \<times> cache \<times> trace" where
  "scrape_article e cache url =
     (if \<not> is_valid_url (env_urlparse e) url then (Inr invalid_url_message, cache, no_trace)
      else if list_ex is_surrogate url
        then (Inl (PyException (str ''UnicodeEncodeError'')), cache, no_trace)
      else
        (let url_hash = env_md5_hexdigest e url in
         case cache_hit e cache url_hash of
           Some cached_content \<Rightarrow> (Inr (cached_marker @ cached_content), cache, no_trace)
         | None \<Rightarrow> try_except e cache url_hash))"

section \<open>Derived notions and example inputs\<close>

text \<open>
  What one pass through the \<^verbatim>\<open>try\<close> of the retry loop yields (lines 480-481): the
  exception of \<^verbatim>\<open>session.get\<close>, the \<open>HTTPError\<close> of \<^verbatim>\<open>raise_for_status\<close>, or the response.
\<close>

definition try_attempt :: "(nat \<Rightarrow> exn + response) \<Rightarrow> nat \<Rightarrow> exn + response" where
  "try_attempt get attempt =
     (case get attempt of
        Inl e \<Rightarrow> Inl e
      | Inr r \<Rightarrow> (case raise_for_status r of Inl e \<Rightarrow> Inl e | Inr u \<Rightarrow> Inr r))"

text \<open>A server that answers every request with status 404.\<close>

definition not_found :: response where
  "not_found = \<lparr> resp_status_code = 404, resp_content_type = None, resp_content = [] \<rparr>"

definition always_not_found :: "nat \<Rightarrow> exn + response" where
  "always_not_found attempt = Inr not_found"


fun scrape_all :: "env list \<Rightarrow> cache \<Rightarrow> pstr \<Rightarrow> cache" where
  "scrape_all [] cache url = cache"
| "scrape_all (e # es) cache url = scrape_all es (fst (snd (scrape_article e cache url))) url"


text \<open>A document without elements.\<close>

definition empty_document :: node where
  "empty_document = Elem (str ''[document]'') [] []"

text \<open>
  An environment in which the page is fetched at once and the semantic strategy proposes
  a text of 201 characters.
\<close>

definition example_url :: pstr where
  "example_url = str ''http://a.b/c''"

definition example_urlparse :: urlparser where
  "example_urlparse url = Inr (str ''http'', str ''a.b'')"

definition html_response :: response where
  "html_response =
     \<lparr> resp_status_code = 200, resp_content_type = Some (str ''Text/HTML; charset=utf-8''),
       resp_content = [] \<rparr>"

definition long_text :: pstr where
  "long_text = replicate 201 97"

definition example_readers :: readers where
  "example_readers =
     \<lparr> extract_semantic_content = (\<lambda>soup. Inr (long_text, None, 100)),
       extract_by_text_density = (\<lambda>soup. Inr ([], None, 0)),
       extract_readability_content = (\<lambda>soup. Inl (PyException [])) \<rparr>"

definition example_env :: "rat \<Rightarrow> rat \<Rightarrow> env" where
  "example_env t_lookup t_store =
     \<lparr> env_urlparse = example_urlparse,
       env_md5_hexdigest = (\<lambda>url. url),
       env_time_lookup = t_lookup,
       env_time_store = t_store,
       env_get_random_headers = Inr (),
       env_session_get = (\<lambda>attempt. Inr html_response),
       env_parse_html = (\<lambda>bytes. Inr (Elem (str ''[document]'') [] [])),
       env_extract_comprehensive_metadata =
         (\<lambda>soup. Inr \<lparr> meta_title = None, meta_author = None, meta_publish_date = None,
                       meta_description = None \<rparr>),
       env_readers = example_readers \<rparr>"

text \<open>
  Following the words of the specification: the media type of a \<^verbatim>\<open>Content-Type\<close> value,
  that is the value without its parameters, in lower case.
\<close>

definition mime_type :: "pstr \<Rightarrow> pstr" where
  "mime_type v = strip (takeWhile (\<lambda>c. c \<noteq> 59) (lower v))"

text \<open>A response whose media type is \<^verbatim>\<open>application/xml\<close>, with \<^verbatim>\<open>text/html\<close> in a parameter.\<close>

definition xml_response :: response where
  "xml_response =
     \<lparr> resp_status_code = 200,
       resp_content_type = Some (str ''application/xml; from=text/html''),
       resp_content = [] \<rparr>"

definition xml_env :: env where
  "xml_env = (example_env 0 0)\<lparr> env_session_get := (\<lambda>attempt. Inr xml_response) \<rparr>"

text \<open>A URL that ends in U+212A, the Kelvin sign.\<close>

definition kelvin_url :: pstr where
  "kelvin_url = str ''http://a.b/'' @ [0x212A]"

text \<open>The example environment with the server that always answers 404.\<close>

definition not_found_env :: env where
  "not_found_env = (example_env 0 0)\<lparr> env_session_get := always_not_found \<rparr>"


text \<open>
  What the strategies return when run in order, each on the tree its predecessor left, and
  the candidates among these results (a strategy that raised contributes none).
\<close>

fun strategy_results :: "strategy list \<Rightarrow> node \<Rightarrow> (exn + candidate) list" where
  "strategy_results [] soup = []"
| "strategy_results (strategy # rest) soup =
     (case strategy soup of (result, soup1) \<Rightarrow> result # strategy_results rest soup1)"

fun candidates_of :: "(exn + candidate) list \<Rightarrow> candidate list" where
  "candidates_of [] = []"
| "candidates_of (Inl e # rs) = candidates_of rs"
| "candidates_of (Inr c # rs) = c # candidates_of rs"

definition cand_content :: "candidate \<Rightarrow> pstr" where
  "cand_content c = fst c"

definition cand_metadata :: "candidate \<Rightarrow> element_metadata option" where
  "cand_metadata c = fst (snd c)"

definition cand_score :: "candidate \<Rightarrow> rat" where
  "cand_score c = snd (snd c)"

definition long_enough :: "candidate \<Rightarrow> bool" where
  "long_enough c \<longleftrightarrow> 200 < length (cand_content c)"

text \<open>The comparison of line 143 applied along a list of candidates.\<close>

fun choose_best :: "candidate list \<Rightarrow> candidate \<Rightarrow> candidate" where
  "choose_best [] best = best"
| "choose_best (c # cs) best =
     (if cand_score c > cand_score best \<and> length (cand_content c) > 200 then choose_best cs c
      else choose_best cs best)"

text \<open>
  Readers of a page on which only the text-density strategy finds a candidate: its text
  has 201 characters, and its density is below one hundredth, so that the score
  \<^verbatim>\<open>int(best_density * 100)\<close> is 0.
\<close>

definition sparse_readers :: readers where
  "sparse_readers =
     \<lparr> extract_semantic_content = (\<lambda>soup. Inr ([], None, 0)),
       extract_by_text_density = (\<lambda>soup. Inr (long_text, None, 0)),
       extract_readability_content = (\<lambda>soup. Inr ([], None, 0)) \<rparr>"

definition sparse_env :: env where
  "sparse_env = (example_env 0 0)\<lparr> env_readers := sparse_readers \<rparr>"

text \<open>
  A page whose only \<^verbatim>\<open>div\<close> holds a \<^verbatim>\<open>nav\<close> element and some text, and a reader that
  reports the text of the tree it is given.
\<close>

definition nav_document :: node where
  "nav_document =
     Elem (str ''[document]'') []
       [Elem (str ''div'') [] [Elem (str ''nav'') [] [Text (str ''menu'')], Text (str ''body'')]]"

definition text_reader :: "node \<Rightarrow> exn + candidate" where
  "text_reader soup = Inr (get_text soup, None, 1)"

text \<open>
  A page with two \<^verbatim>\<open>div\<close> elements: 41 characters of text in the first; in the second two
  paragraphs with 16 characters of text, 3 of them in a link.
\<close>

definition two_div_document :: node where
  "two_div_document =
     Elem (str ''[document]'') []
       [Elem (str ''div'') [] [Text (replicate 41 120)],
        Elem (str ''div'') []
          [Elem (str ''p'') [] [Text (replicate 13 121)],
           Elem (str ''p'') [] [Elem (str ''a'') [] [Text (replicate 3 122)]]]]"

text \<open>No candidate of the length heuristics has an element to remove below it.\<close>

definition nothing_to_remove :: "node \<Rightarrow> bool" where
  "nothing_to_remove soup \<longleftrightarrow>
     list_all (\<lambda>element. find_all unwanted_tags (subtree soup element) = [])
       (find_all candidate_tags soup)"

text \<open>
  The tree without the elements that satisfy a test: what decomposing every element found
  by \<^verbatim>\<open>select\<close> or \<^verbatim>\<open>find_all\<close> leaves.
\<close>

fun purge :: "(node \<Rightarrow> bool) \<Rightarrow> node \<Rightarrow> node" where
  "purge P (Elem n a cs) = Elem n a (map (\<lambda>c. if P c then Decomposed else purge P c) cs)"
| "purge P t = t"

text \<open>A test on elements that looks at the tag name and the attributes only.\<close>

definition shallow :: "(node \<Rightarrow> bool) \<Rightarrow> bool" where
  "shallow P \<longleftrightarrow>
     \<not> P Decomposed \<and> (\<forall>n a cs cs'. P (Elem n a cs) = P (Elem n a cs'))"

text \<open>
  The two halves of \<^verbatim>\<open>enhanced_text_cleaning\<close>: the eight substitutions (lines 356-367), and
  the work on the lines (lines 370-390).
\<close>

definition regex_stage :: "pstr \<Rightarrow> pstr" where
  "regex_stage text0 =
     re_sub (m_run 46 4) [46, 46, 46]
       (re_sub (m_run 63 3) [63, 63, 63]
         (re_sub (m_run 33 3) [33, 33, 33]
           (re_sub m_newline_spaces [NL]
             (re_sub m_newlines [NL, NL]
               (re_sub (m_run SP 2) [SP]
                 (re_sub (m_char TAB) [SP]
                   (re_sub m_line_ending [NL] text0)))))))"

definition line_stage :: "pstr \<Rightarrow> pstr" where
  "line_stage t = strip (join [NL] (limit_empty 0 (keep_lines (split_nl t))))"

text \<open>What the substitutions leave nowhere in the text.\<close>

definition forbidden :: "pstr list" where
  "forbidden = [[CR], [TAB], [SP, SP], replicate 4 33, replicate 4 63, replicate 4 46]"

text \<open>
  Lines as the line stage leaves them: each one without a newline, without whitespace at
  its ends, and empty or longer than five characters; no two empty lines in a row; and
  the last line not empty.
\<close>

definition stripped :: "pstr \<Rightarrow> bool" where
  "stripped l \<longleftrightarrow> l = [] \<or> (\<not> is_space (hd l) \<and> \<not> is_space (last l))"

definition tidy :: "pstr list \<Rightarrow> bool" where
  "tidy ls \<longleftrightarrow>
     (\<forall>l \<in> set ls. NL \<notin> set l \<and> stripped l \<and> (l = [] \<or> 5 < length l)) \<and>
     \<not> sublist [[], []] ls \<and> (ls = [] \<or> last ls \<noteq> [])"

text \<open>A list of lines without the empty lines at its two ends.\<close>

definition trim_empty :: "pstr list \<Rightarrow> pstr list" where
  "trim_empty ls = rev (dropWhile (\<lambda>l. l = []) (rev (dropWhile (\<lambda>l. l = []) ls)))"

text \<open>A text for the normalizer.\<close>

definition messy_text :: pstr where
  "messy_text = str '' Read   more....'' @ [CR, NL, TAB, NL, NL, NL] @ str ''menu'' @ [NL] @
     str ''Really!!!!!  ''"


section \<open>The retry loop\<close>

lemma upt3: "[0..<3] = [0, 1, 2]"
  by (simp add: upt_rec)

lemma fetch_loop_step:
  "fetch_loop get m (a # rest) resp tr =
     (case try_attempt get a of
        Inr r \<Rightarrow> (Inr (Some r), tr\<lparr>gets := gets tr + 1\<rparr>)
      | Inl e \<Rightarrow>
          if is_RequestException e \<and> a \<noteq> m - 1
          then fetch_loop get m rest (case get a of Inl x \<Rightarrow> resp | Inr r \<Rightarrow> Some r)
                 (tr\<lparr>gets := gets tr + 1, sleeps := sleeps tr @ [2 ^ a]\<rparr>)
          else (Inl e, tr\<lparr>gets := gets tr + 1\<rparr>))"
  by (simp add: try_attempt_def Let_def split: sum.split)

lemma fetch_unrolled:
  "fetch get no_trace =
     (case try_attempt get 0 of
        Inr r \<Rightarrow> (Inr (Some r), \<lparr>gets = 1, sleeps = []\<rparr>)
      | Inl e0 \<Rightarrow>
          if \<not> is_RequestException e0 then (Inl e0, \<lparr>gets = 1, sleeps = []\<rparr>)
          else
            (case try_attempt get 1 of
               Inr r \<Rightarrow> (Inr (Some r), \<lparr>gets = 2, sleeps = [1]\<rparr>)
             | Inl e1 \<Rightarrow>
                 if \<not> is_RequestException e1 then (Inl e1, \<lparr>gets = 2, sleeps = [1]\<rparr>)
                 else
                   (case try_attempt get 2 of
                      Inr r \<Rightarrow> (Inr (Some r), \<lparr>gets = 3, sleeps = [1, 2]\<rparr>)
                    | Inl e2 \<Rightarrow> (Inl e2, \<lparr>gets = 3, sleeps = [1, 2]\<rparr>))))"
  unfolding fetch_def Let_def upt3 no_trace_def
  by (simp add: fetch_loop_step del: fetch_loop.simps(2) split: sum.split)

text \<open>
  Claim C1, as stated, fails: a 404 response, received without any transport failure, is
  requested three times before the error is surfaced.
\<close>

theorem http_error_is_retried:
  "gets (snd (fetch always_not_found no_trace)) = 3"
  by (simp add: fetch_unrolled try_attempt_def always_not_found_def not_found_def
      raise_for_status_def)

text \<open>
  Claim C1, amended: the loop makes between one and three requests; the sleeps between
  them are \<open>2 ^ attempt\<close>; every attempt before the last one failed with a
  \<open>RequestException\<close>, be it a transport failure raised by \<^verbatim>\<open>session.get\<close> or the
  \<open>HTTPError\<close> that \<^verbatim>\<open>raise_for_status\<close> raises for a received error status; the outcome of
  the last attempt is what leaves the loop; and a \<open>RequestException\<close> leaves it only after
  the third attempt.  An exception outside \<^verbatim>\<open>requests\<close> is never retried.
\<close>

theorem fetch_retries_every_request_exception:
  fixes get
  defines "res \<equiv> fst (fetch get no_trace)" and "tr \<equiv> snd (fetch get no_trace)"
  shows "1 \<le> gets tr \<and> gets tr \<le> 3 \<and>
     sleeps tr = map (\<lambda>attempt. 2 ^ attempt) [0..<gets tr - 1] \<and>
     (\<forall>k < gets tr - 1. \<exists>e. try_attempt get k = Inl e \<and> is_RequestException e) \<and>
     res = map_sum id Some (try_attempt get (gets tr - 1)) \<and>
     (\<forall>e. res = Inl e \<and> is_RequestException e \<longrightarrow> gets tr = 3) \<and>
     (\<forall>e. res = Inl e \<and> gets tr < 3 \<longrightarrow> \<not> is_RequestException e)"
proof -
  consider (a) r where "try_attempt get 0 = Inr r"
    | (b) e where "try_attempt get 0 = Inl e" "\<not> is_RequestException e"
    | (c) e r where "try_attempt get 0 = Inl e" "is_RequestException e" "try_attempt get 1 = Inr r"
    | (d) e e1 where "try_attempt get 0 = Inl e" "is_RequestException e"
        "try_attempt get 1 = Inl e1" "\<not> is_RequestException e1"
    | (e) e e1 x where "try_attempt get 0 = Inl e" "is_RequestException e"
        "try_attempt get 1 = Inl e1" "is_RequestException e1" "try_attempt get 2 = x"
    by (cases "try_attempt get 0"; cases "try_attempt get 1") blast+
  then show ?thesis
  proof cases
    case a then show ?thesis unfolding res_def tr_def fetch_unrolled by simp
  next
    case b then show ?thesis unfolding res_def tr_def fetch_unrolled by simp
  next
    case c then show ?thesis unfolding res_def tr_def fetch_unrolled by simp
  next
    case d then show ?thesis unfolding res_def tr_def fetch_unrolled by (simp add: upt_rec)
  next
    case e then show ?thesis unfolding res_def tr_def fetch_unrolled
      by (cases x) (simp_all add: upt_rec less_Suc_eq numeral_2_eq_2)
  qed
qed

theorem fetch_retries_witness:
  "gets (snd (fetch always_not_found no_trace)) = 3 \<and>
   sleeps (snd (fetch always_not_found no_trace)) = [1, 2] \<and>
   fst (fetch always_not_found no_trace) = Inl (HTTPError (Some not_found))"
proof -
  have t: "try_attempt always_not_found k = Inl (HTTPError (Some not_found))" for k
    by (simp add: try_attempt_def always_not_found_def not_found_def raise_for_status_def)
  from fetch_retries_every_request_exception [of always_not_found]
  have g: "gets (snd (fetch always_not_found no_trace)) = 3"
    and s: "sleeps (snd (fetch always_not_found no_trace)) =
              map (\<lambda>attempt. 2 ^ attempt) [0..<gets (snd (fetch always_not_found no_trace)) - 1]"
    and r: "fst (fetch always_not_found no_trace) = Inl (HTTPError (Some not_found))"
    by (simp_all add: t)
  from s g r show ?thesis by (simp add: upt_rec numeral_2_eq_2)
qed

section \<open>Strings\<close>

lemma contains_iff_sublist: "contains pat s \<longleftrightarrow> sublist pat s"
  by (induction s) (simp_all add: sublist_Cons_right)

lemma prefix_rev_dropWhile_rev: "prefix (rev (dropWhile P (rev s))) s"
  using suffix_dropWhile [of P "rev s"] by (simp add: suffix_to_prefix)

lemma sublist_strip: "sublist (strip s) s"
proof -
  have "prefix (strip s) (dropWhile is_space s)"
    unfolding strip_def by (rule prefix_rev_dropWhile_rev)
  then have "sublist (strip s) (dropWhile is_space s)" by (rule prefix_imp_sublist)
  moreover have "sublist (dropWhile is_space s) s"
    using suffix_dropWhile by (rule suffix_imp_sublist)
  ultimately show ?thesis by (rule sublist_order.order_trans)
qed

section \<open>The cache\<close>

lemma keys_dict_set: "fst ` set (dict_set d k v) = insert k (fst ` set d)"
  by (induction d k v rule: dict_set.induct) auto

lemma distinct_dict_set: "distinct (map fst d) \<Longrightarrow> distinct (map fst (dict_set d k v))"
  by (induction d k v rule: dict_set.induct) (auto simp: keys_dict_set)

lemma length_dict_set:
  "length (dict_set d k v) = (if k \<in> fst ` set d then length d else Suc (length d))"
  by (induction d k v rule: dict_set.induct) auto

lemma map_of_dict_set: "map_of (dict_set d k v) = (map_of d)(k \<mapsto> v)"
  by (induction d k v rule: dict_set.induct) (auto simp: fun_eq_iff)





lemma map_of_dict_del:
  "distinct (map fst d) \<Longrightarrow> map_of (dict_del d k) = (map_of d)(k := None)"
  by (induction d k rule: dict_del.induct) (auto simp: fun_eq_iff map_of_eq_None_iff)

lemma min_by_mem: "min_by f b xs \<in> set (b # xs)"
  by (induction xs arbitrary: b) auto

lemma min_by_le_best: "f (min_by f b xs) \<le> f b"
  by (induction xs arbitrary: b) (auto intro: order_trans less_imp_le)

lemma min_by_least: "x \<in> set (b # xs) \<Longrightarrow> f (min_by f b xs) \<le> f x"
proof (induction xs arbitrary: b)
  case Nil then show ?case by simp
next
  case (Cons y ys)
  show ?case
  proof (cases "f y < f b")
    case True
    with Cons show ?thesis
      using min_by_le_best [of f y ys] by (auto intro: order_trans less_imp_le)
  next
    case False
    with Cons show ?thesis
      using min_by_le_best [of f b ys] by (auto intro: order_trans)
  qed
qed

lemma min_by_snoc:
  "min_by f b (xs @ [y]) = (if f y < f (min_by f b xs) then y else min_by f b xs)"
  by (induction xs arbitrary: b) auto


lemma min_by_not_last:
  assumes "x \<in> set (b # xs)" "f x \<le> f y" "y \<notin> set (b # xs)"
  shows "min_by f b (xs @ [y]) \<noteq> y"
proof -
  have "f (min_by f b xs) \<le> f y"
    using min_by_least [OF assms(1), of f] assms(2) by (rule order_trans)
  then have "min_by f b (xs @ [y]) = min_by f b xs"
    by (simp add: min_by_snoc)
  with min_by_mem [of f b xs] assms(3) show ?thesis by auto
qed

lemma timestamp_of_eq: "map_of c k = Some (t, r) \<Longrightarrow> timestamp_of c k = t"
  by (simp add: timestamp_of_def)






lemma surrogate_non_ascii: "is_surrogate c \<Longrightarrow> non_ascii_ci c"
  by (simp add: is_surrogate_def non_ascii_ci_def)

lemma valid_no_non_ascii_ci: "is_valid_url up url \<Longrightarrow> \<not> list_ex non_ascii_ci url"
  by (auto simp: is_valid_url_def suspicious_patterns_def split: sum.splits prod.splits if_splits)

lemma valid_no_surrogate: "is_valid_url up url \<Longrightarrow> \<not> list_ex is_surrogate url"
  using valid_no_non_ascii_ci [of up url] surrogate_non_ascii
  by (auto simp: list_ex_iff)



lemma fetch_gets_pos: "1 \<le> gets (snd (fetch get no_trace))"
  unfolding fetch_unrolled by (simp split: sum.split)

lemma process_response_cache:
  assumes "process_response e c h resp = (res, c1)"
  shows "c1 = c \<or> (\<exists>final. res = Inr final \<and> c1 = cache_store c h (env_time_store e) final)"
  using assms unfolding process_response_def extract_and_store_def Let_def
  by (auto split: if_splits sum.splits prod.splits)

lemma try_block_cache:
  assumes "try_block e c h = (res, c1, tr)"
  shows "c1 = c \<or>
         (\<exists>final. res = Inr final \<and> 1 \<le> gets tr \<and>
            c1 = cache_store c h (env_time_store e) final)"
proof (cases "env_get_random_headers e")
  case (Inl ex)
  with assms show ?thesis by (simp add: try_block_def)
next
  case (Inr u)
  obtain fr tr0 where f: "fetch (env_session_get e) no_trace = (fr, tr0)" by force
  have g: "1 \<le> gets tr0" using fetch_gets_pos [of "env_session_get e"] f by simp
  show ?thesis
  proof (cases fr)
    case (Inl ex)
    with assms Inr f show ?thesis by (simp add: try_block_def)
  next
    case r: (Inr ro)
    show ?thesis
    proof (cases ro)
      case None
      with assms Inr f r show ?thesis by (simp add: try_block_def)
    next
      case (Some resp)
      obtain res' c' where p: "process_response e c h resp = (res', c')" by force
      with assms Inr f r Some have "res = res'" "c1 = c'" "tr = tr0"
        by (simp_all add: try_block_def)
      with process_response_cache [OF p] g show ?thesis by auto
    qed
  qed
qed

lemma scrape_article_invalid:
  "\<not> is_valid_url (env_urlparse e) url \<Longrightarrow>
   scrape_article e cache url = (Inr invalid_url_message, cache, no_trace)"
  by (simp add: scrape_article_def)

lemma scrape_article_hit:
  assumes "is_valid_url (env_urlparse e) url"
    "cache_hit e cache (env_md5_hexdigest e url) = Some body"
  shows "scrape_article e cache url = (Inr (cached_marker @ body), cache, no_trace)"
  using assms valid_no_surrogate [OF assms(1)] by (simp add: scrape_article_def Let_def)

lemma scrape_article_miss:
  assumes "is_valid_url (env_urlparse e) url"
    "cache_hit e cache (env_md5_hexdigest e url) = None"
  shows "scrape_article e cache url = try_except e cache (env_md5_hexdigest e url)"
  using assms valid_no_surrogate [OF assms(1)] by (simp add: scrape_article_def Let_def)

lemma try_except_cache:
  assumes "try_except e c h = (res, c1, tr)"
  shows "c1 = c \<or>
         (\<exists>final. res = Inr final \<and> 1 \<le> gets tr \<and>
            c1 = cache_store c h (env_time_store e) final)"
proof -
  obtain r0 c0 t0 where t: "try_block e c h = (r0, c0, t0)" by (metis prod_cases3)
  from assms t have "c1 = c0" "tr = t0" "r0 = Inr final \<Longrightarrow> res = Inr final" for final
    by (auto simp: try_except_def split: sum.splits)
  with try_block_cache [OF t] show ?thesis by auto
qed

lemma scrape_article_cache:
  assumes "scrape_article e c url = (res, c1, tr)"
  shows "c1 = c \<or>
         (\<exists>final. res = Inr final \<and> 1 \<le> gets tr \<and>
            c1 = cache_store c (env_md5_hexdigest e url) (env_time_store e) final)"
proof (cases "is_valid_url (env_urlparse e) url")
  case False
  with assms show ?thesis by (simp add: scrape_article_invalid)
next
  case True
  show ?thesis
  proof (cases "cache_hit e c (env_md5_hexdigest e url)")
    case (Some body)
    with assms True show ?thesis by (simp add: scrape_article_hit)
  next
    case None
    with assms True have "try_except e c (env_md5_hexdigest e url) = (res, c1, tr)"
      by (simp add: scrape_article_miss)
    then show ?thesis by (rule try_except_cache)
  qed
qed



lemma try_block_gets:
  assumes "env_get_random_headers e = Inr u" "try_block e c h = (res, c1, tr)"
  shows "1 \<le> gets tr"
proof -
  obtain fr tr0 where f: "fetch (env_session_get e) no_trace = (fr, tr0)" by force
  have g: "1 \<le> gets tr0" using fetch_gets_pos [of "env_session_get e"] f by simp
  have "tr = tr0"
    using assms f by (auto simp: try_block_def split: sum.splits option.splits prod.splits)
  with g show ?thesis by simp
qed

text \<open>The entry written by cache_store is there afterwards, unless the clock ran backwards.\<close>

lemma dict_set_absent: "k \<notin> fst ` set d \<Longrightarrow> dict_set d k v = d @ [(k, v)]"
  by (induction d k v rule: dict_set.induct) auto

lemma timestamp_of_dict_set_other:
  "k' \<noteq> k \<Longrightarrow> timestamp_of (dict_set d k v) k' = timestamp_of d k'"
  by (simp add: timestamp_of_def map_of_dict_set)

lemma timestamp_of_dict_set_same: "timestamp_of (dict_set d k (t, r)) k = t"
  by (simp add: timestamp_of_def map_of_dict_set)

lemma timestamp_of_mem:
  "distinct (map fst d) \<Longrightarrow> (k, t, r) \<in> set d \<Longrightarrow> timestamp_of d k = t"
  by (simp add: timestamp_of_def)

lemma cache_store_keeps_new:
  assumes d: "distinct (map fst c)" and l: "length c \<le> 50"
    and mono: "\<forall>(k', t', r') \<in> set c. t' \<le> now"
  shows "map_of (cache_store c k now r) k = Some (now, r)"
proof -
  let ?c1 = "dict_set c k (now, r)"
  have d1: "distinct (map fst ?c1)" using d by (rule distinct_dict_set)
  have m1: "map_of ?c1 k = Some (now, r)" by (simp add: map_of_dict_set)
  show ?thesis
  proof (cases "50 < length ?c1")
    case False
    then show ?thesis using m1 by (simp add: cache_store_def Let_def)
  next
    case True
    then have new: "k \<notin> fst ` set c" and len: "length c = 50"
      using l by (auto simp: length_dict_set split: if_splits)
    have app: "?c1 = c @ [(k, now, r)]" using new by (rule dict_set_absent)
    obtain k0 v0 rest where c: "c = (k0, v0) # rest" using len by (cases c) auto
    let ?f = "timestamp_of ?c1"
    have "map fst ?c1 = map fst c @ [k]" by (simp only: app) simp
    then have keys: "map fst ?c1 = k0 # (map fst rest @ [k])" by (simp only: c) simp
    have k0: "k0 \<noteq> k" using new c by auto
    obtain t0 r0 where v0: "v0 = (t0, r0)" by (cases v0)
    have "?f k0 = t0" using k0 by (simp add: timestamp_of_dict_set_other timestamp_of_def c v0)
    moreover have "t0 \<le> now" using mono c v0 by auto
    ultimately have le: "?f k0 \<le> ?f k" by (simp add: timestamp_of_dict_set_same)
    have "k \<notin> set (k0 # map fst rest)" using new c by auto
    then have ne: "min_by ?f k0 (map fst rest @ [k]) \<noteq> k"
      using min_by_not_last [of k0 k0 "map fst rest" ?f k] le by simp
    have "cache_store c k now r = dict_del ?c1 (min_by ?f k0 (map fst rest @ [k]))"
      using True keys by (simp add: cache_store_def Let_def)
    then show ?thesis using ne m1 d1 by (simp add: map_of_dict_del)
  qed
qed




lemma example_url_valid: "is_valid_url example_urlparse example_url"
  by (simp add: is_valid_url_def example_urlparse_def example_url_def str_def
      suspicious_patterns_def non_ascii_ci_def ci_matches_def)

lemma example_extraction:
  "advanced_content_extraction example_readers (sanitize (Elem (str ''[document]'') [] [])) =
     ((long_text, None), Elem (str ''[document]'') [] [])"
  by (simp add: advanced_content_extraction_def run_strategies_def extraction_strategies_def
      reading_def example_readers_def long_text_def extract_by_length_heuristics_def
      find_all_def sanitize_def unwanted_selectors_def select_def)

lemma example_process:
  "process_response (example_env t1 t2) c h html_response =
     (Inr long_text, cache_store c h t2 long_text)"
  by (simp add: process_response_def extract_and_store_def example_env_def html_response_def
      lower_def lower_char_def
      str_def example_extraction [unfolded str_def, simplified] format_result_def part_if_def
      long_text_def Let_def)

lemma example_try:
  "try_except (example_env t1 t2) c h =
     (Inr long_text, cache_store c h t2 long_text, \<lparr>gets = 1, sleeps = []\<rparr>)"
proof -
  have "fetch (env_session_get (example_env t1 t2)) no_trace =
          (Inr (Some html_response), \<lparr>gets = 1, sleeps = []\<rparr>)"
    by (simp add: fetch_unrolled try_attempt_def example_env_def html_response_def
        raise_for_status_def)
  moreover have "env_get_random_headers (example_env t1 t2) = Inr ()"
    by (simp add: example_env_def)
  ultimately show ?thesis
    unfolding try_except_def try_block_def by (simp add: example_process)
qed


lemma example_first_call:
  "scrape_article (example_env t1 t2) [] example_url =
     (Inr long_text, cache_store [] example_url t2 long_text, \<lparr>gets = 1, sleeps = []\<rparr>)"
proof -
  have v: "is_valid_url (env_urlparse (example_env t1 t2)) example_url"
    using example_url_valid by (simp add: example_env_def)
  have m: "env_md5_hexdigest (example_env t1 t2) example_url = example_url"
    by (simp add: example_env_def)
  show ?thesis
    using scrape_article_miss [OF v] by (simp add: m cache_hit_def example_try)
qed

text \<open>
  Claim C8: for a valid URL whose entry is in the cache, the call is a hit exactly when
  the entry is younger than 3600: then it returns the cached body behind the marker, leaves
  the cache alone and makes no request.  From age 3600 on the call runs the \<^verbatim>\<open>try\<close>
  statement as if there were no entry and, once the headers are built, requests the page.
  In particular the second of two calls for a URL, made less than 3600 after the first
  one wrote its result, returns that result behind the marker (the clock not having run
  backwards past the entries already cached).
\<close>

theorem cache_hit_within_ttl:
  fixes e :: env and cache :: cache and url :: pstr
  defines "url_hash \<equiv> env_md5_hexdigest e url"
  assumes valid: "is_valid_url (env_urlparse e) url"
  shows
    "(\<forall>t body. map_of cache url_hash = Some (t, body) \<and> env_time_lookup e - t < 3600 \<longrightarrow>
        scrape_article e cache url = (Inr (cached_marker @ body), cache, no_trace)) \<and>
     (\<forall>t body. map_of cache url_hash = Some (t, body) \<and> 3600 \<le> env_time_lookup e - t \<longrightarrow>
        scrape_article e cache url = try_except e cache url_hash \<and>
        (env_get_random_headers e = Inr () \<longrightarrow>
           1 \<le> gets (snd (snd (scrape_article e cache url))))) \<and>
     (\<forall>e1 c0 body tr1.
        scrape_article e1 c0 url = (Inr body, cache, tr1) \<and>
        cache = cache_store c0 url_hash (env_time_store e1) body \<and>
        distinct (map fst c0) \<and> length c0 \<le> 50 \<and>
        (\<forall>(k, t, r) \<in> set c0. t \<le> env_time_store e1) \<and>
        env_time_lookup e - env_time_store e1 < 3600 \<longrightarrow>
        scrape_article e cache url = (Inr (cached_marker @ body), cache, no_trace))"
proof (intro conjI allI impI)
  fix t body
  assume "map_of cache url_hash = Some (t, body) \<and> env_time_lookup e - t < 3600"
  then have "cache_hit e cache (env_md5_hexdigest e url) = Some body"
    by (simp add: cache_hit_def url_hash_def)
  with valid show "scrape_article e cache url = (Inr (cached_marker @ body), cache, no_trace)"
    by (rule scrape_article_hit)
next
  fix t body
  assume a: "map_of cache url_hash = Some (t, body) \<and> 3600 \<le> env_time_lookup e - t"
  then have "cache_hit e cache (env_md5_hexdigest e url) = None"
    by (simp add: cache_hit_def url_hash_def)
  with valid show m: "scrape_article e cache url = try_except e cache url_hash"
    unfolding url_hash_def by (rule scrape_article_miss)
  assume h: "env_get_random_headers e = Inr ()"
  obtain r0 c0 t0 where tb: "try_block e cache url_hash = (r0, c0, t0)" by (metis prod_cases3)
  from try_block_gets [OF h tb] have "1 \<le> gets t0" .
  moreover have "snd (snd (try_except e cache url_hash)) = t0"
    using tb by (auto simp: try_except_def split: sum.splits)
  ultimately show "1 \<le> gets (snd (snd (scrape_article e cache url)))" by (simp add: m)
next
  fix e1 c0 body tr1
  assume a: "scrape_article e1 c0 url = (Inr body, cache, tr1) \<and>
        cache = cache_store c0 url_hash (env_time_store e1) body \<and>
        distinct (map fst c0) \<and> length c0 \<le> 50 \<and>
        (\<forall>(k, t, r) \<in> set c0. t \<le> env_time_store e1) \<and>
        env_time_lookup e - env_time_store e1 < 3600"
  then have "map_of cache url_hash = Some (env_time_store e1, body)"
    using cache_store_keeps_new [of c0 "env_time_store e1" url_hash body] by simp
  with a have "cache_hit e cache (env_md5_hexdigest e url) = Some body"
    by (simp add: cache_hit_def url_hash_def)
  with valid show "scrape_article e cache url = (Inr (cached_marker @ body), cache, no_trace)"
    by (rule scrape_article_hit)
qed

theorem cache_hit_within_ttl_witness:
  "scrape_article (example_env 10 20) [] example_url =
     (Inr long_text, cache_store [] example_url 20 long_text, \<lparr>gets = 1, sleeps = []\<rparr>) \<and>
   scrape_article (example_env 3619 0) (cache_store [] example_url 20 long_text) example_url =
     (Inr (cached_marker @ long_text), cache_store [] example_url 20 long_text, no_trace) \<and>
   1 \<le> gets (snd (snd (scrape_article (example_env 3620 3630)
                (cache_store [] example_url 20 long_text) example_url)))"
proof -
  let ?c = "cache_store [] example_url 20 long_text"
  have v: "is_valid_url (env_urlparse (example_env a b)) example_url" for a b
    using example_url_valid by (simp add: example_env_def)
  have m: "env_md5_hexdigest (example_env a b) example_url = example_url" for a b
    by (simp add: example_env_def)
  have t: "env_time_lookup (example_env a b) = a" "env_time_store (example_env a b) = b"
    "env_get_random_headers (example_env a b) = Inr ()" for a b
    by (simp_all add: example_env_def)
  have first: "scrape_article (example_env 10 20) [] example_url =
     (Inr long_text, ?c, \<lparr>gets = 1, sleeps = []\<rparr>)"
    by (rule example_first_call)
  have entry: "map_of ?c example_url = Some (20, long_text)"
    by (simp add: cache_store_def)
  note hit = cache_hit_within_ttl [OF v, of ?c 3619 0, unfolded m t,
      THEN conjunct2, THEN conjunct2, rule_format,
      of "example_env 10 20" "[]" long_text "\<lparr>gets = 1, sleeps = []\<rparr>"]
  have second: "scrape_article (example_env 3619 0) ?c example_url =
     (Inr (cached_marker @ long_text), ?c, no_trace)"
    by (rule hit) (simp add: first t)
  note miss = cache_hit_within_ttl [OF v, of ?c 3620 3630, unfolded m t,
      THEN conjunct2, THEN conjunct1, rule_format, of 20 long_text]
  have "(3600 :: rat) \<le> 3620 - 20" by simp
  with miss entry
  have third: "1 \<le> gets (snd (snd (scrape_article (example_env 3620 3630) ?c example_url)))"
    by blast
  from first second third show ?thesis by blast
qed

lemma scrape_all_hits:
  assumes "map_of cache h = Some (t, body)"
    and "\<forall>e \<in> set es. is_valid_url (env_urlparse e) url \<and> env_md5_hexdigest e url = h \<and>
           env_time_lookup e - t < 3600"
  shows "scrape_all (es :: env list) cache url = cache"
  using assms(2)
proof (induction es)
  case Nil
  then show ?case by simp
next
  case (Cons e es)
  then have v: "is_valid_url (env_urlparse e) url" and "env_md5_hexdigest e url = h"
    and "env_time_lookup e - t < 3600" by simp_all
  then have "cache_hit e cache (env_md5_hexdigest e url) = Some body"
    using assms(1) by (simp add: cache_hit_def)
  from scrape_article_hit [OF v this] Cons show ?case by simp
qed

text \<open>
  Claim C10: a hit returns the cache as it was; any number of hits leaves the entry with
  the timestamp of its write, so that it is served until its age reaches 3600 and not
  after; and whatever a call does, an entry that was in the cache is still there with the
  same timestamp and content unless the call fetched a page and either wrote its result
  under that key or pushed the cache over fifty entries.
\<close>

theorem cache_hit_leaves_cache:
  fixes e :: env and cache :: cache and url :: pstr
  defines "h \<equiv> env_md5_hexdigest e url"
  assumes d: "distinct (map fst cache)"
  shows
    "(\<forall>body. is_valid_url (env_urlparse e) url \<and> cache_hit e cache h = Some body \<longrightarrow>
        fst (snd (scrape_article e cache url)) = cache) \<and>
     (\<forall>(es :: env list) t body.
        map_of cache h = Some (t, body) \<and>
        (\<forall>e' \<in> set es. is_valid_url (env_urlparse e') url \<and> env_md5_hexdigest e' url = h \<and>
           env_time_lookup e' - t < 3600) \<longrightarrow>
        scrape_all es cache url = cache \<and>
        (\<forall>e' :: env. cache_hit e' (scrape_all es cache url) h =
           (if env_time_lookup e' - t < 3600 then Some body else None))) \<and>
     (\<forall>k v res c1 tr.
        map_of cache k = Some v \<and> scrape_article e cache url = (res, c1, tr) \<and>
        map_of c1 k \<noteq> Some v \<longrightarrow>
        1 \<le> gets tr \<and>
        (\<exists>final. res = Inr final \<and> c1 = cache_store cache h (env_time_store e) final \<and>
           (k = h \<or> 50 < length (dict_set cache h (env_time_store e, final)))))"
proof (intro conjI allI impI)
  fix body
  assume "is_valid_url (env_urlparse e) url \<and> cache_hit e cache h = Some body"
  then show "fst (snd (scrape_article e cache url)) = cache"
    using scrape_article_hit [of e url cache body] by (simp add: h_def)
next
  fix es :: "env list" and t body
  assume a: "map_of cache h = Some (t, body) \<and>
        (\<forall>e' \<in> set es. is_valid_url (env_urlparse e') url \<and> env_md5_hexdigest e' url = h \<and>
           env_time_lookup e' - t < 3600)"
  then show s: "scrape_all es cache url = cache"
    using scrape_all_hits [of cache h t body es url] by blast
  fix e' :: env
  show "cache_hit e' (scrape_all es cache url) h =
           (if env_time_lookup e' - t < 3600 then Some body else None)"
    using a by (simp add: s cache_hit_def)
next
  fix k v res c1 tr
  assume a: "map_of cache k = Some v \<and> scrape_article e cache url = (res, c1, tr) \<and>
        map_of c1 k \<noteq> Some v"
  then have s: "scrape_article e cache url = (res, c1, tr)" and ne: "c1 \<noteq> cache" by auto
  from scrape_article_cache [OF s] ne obtain final where
    f: "res = Inr final" "1 \<le> gets tr" "c1 = cache_store cache h (env_time_store e) final"
    by (auto simp: h_def)
  show "1 \<le> gets tr" by fact
  let ?c1 = "dict_set cache h (env_time_store e, final)"
  have "k = h \<or> 50 < length ?c1"
  proof (rule ccontr)
    assume "\<not> (k = h \<or> 50 < length ?c1)"
    then have "k \<noteq> h" "c1 = ?c1" using f(3) by (simp_all add: cache_store_def Let_def)
    then have "map_of c1 k = Some v" using a by (simp add: map_of_dict_set)
    with a show False by simp
  qed
  with f show "\<exists>final. res = Inr final \<and> c1 = cache_store cache h (env_time_store e) final \<and>
           (k = h \<or> 50 < length (dict_set cache h (env_time_store e, final)))"
    by blast
qed

theorem cache_hit_leaves_cache_witness:
  "fst (snd (scrape_article (example_env 30 40) [(example_url, 20, long_text)] example_url)) =
     [(example_url, 20, long_text)] \<and>
   scrape_all [example_env 30 40, example_env 3619 0] [(example_url, 20, long_text)] example_url =
     [(example_url, 20, long_text)] \<and>
   cache_hit (example_env 3620 0) [(example_url, 20, long_text)] example_url = None"
proof -
  let ?c = "[(example_url, 20 :: rat, long_text)]"
  have v: "is_valid_url (env_urlparse (example_env a b)) example_url" for a b
    using example_url_valid by (simp add: example_env_def)
  have m: "env_md5_hexdigest (example_env a b) example_url = example_url" for a b
    by (simp add: example_env_def)
  have t: "env_time_lookup (example_env a b) = a" for a b
    by (simp add: example_env_def)
  have d: "distinct (map fst ?c)" by simp
  note th = cache_hit_leaves_cache [OF d, of "example_env 30 40" example_url, unfolded m]
  have 1: "fst (snd (scrape_article (example_env 30 40) ?c example_url)) = ?c"
    by (rule th [THEN conjunct1, rule_format, of long_text]) (simp add: v cache_hit_def t)
  have 2: "scrape_all [example_env 30 40, example_env 3619 0] ?c example_url = ?c \<and>
     (\<forall>e' :: env. cache_hit e' (scrape_all [example_env 30 40, example_env 3619 0] ?c example_url)
        example_url = (if env_time_lookup e' - 20 < 3600 then Some long_text else None))"
    by (rule th [THEN conjunct2, THEN conjunct1, rule_format,
          of 20 long_text "[example_env 30 40, example_env 3619 0]"])
       (simp add: v m t)
  have 3: "cache_hit (example_env 3620 0) ?c example_url = None"
    using 2 [THEN conjunct2, rule_format, of "example_env 3620 0"]
    by (simp only: 2 [THEN conjunct1] t) simp
  from 1 2 3 show ?thesis by simp
qed

section \<open>The content-type check\<close>

lemma mime_type_contained:
  assumes "mime_type v = str ''text/html''"
  shows "contains (str ''text/html'') (lower v)"
proof -
  have "sublist (mime_type v) (takeWhile (\<lambda>c. c \<noteq> 59) (lower v))"
    unfolding mime_type_def by (rule sublist_strip)
  moreover have "sublist (takeWhile (\<lambda>c. c \<noteq> 59) (lower v)) (lower v)"
    using takeWhile_is_prefix by (rule prefix_imp_sublist)
  ultimately have "sublist (mime_type v) (lower v)" by (rule sublist_order.order_trans)
  with assms show ?thesis by (simp add: contains_iff_sublist)
qed

lemma xml_is_not_html: "mime_type (str ''application/xml; from=text/html'') = str ''application/xml''"
  by (simp add: mime_type_def str_def lower_def lower_char_def strip_def is_space_def)

text \<open>
  Claim C9, as stated, fails: a response of media type \<^verbatim>\<open>application/xml\<close> that names
  \<^verbatim>\<open>text/html\<close> in a parameter is not rejected; its body goes through the extraction.
\<close>

theorem xml_response_is_extracted:
  "mime_type (the (resp_content_type xml_response)) \<noteq> str ''text/html'' \<and>
   scrape_article xml_env [] example_url =
     (Inr long_text, cache_store [] example_url 0 long_text, \<lparr>gets = 1, sleeps = []\<rparr>)"
proof -
  have 1: "mime_type (the (resp_content_type xml_response)) \<noteq> str ''text/html''"
    by (simp add: xml_response_def xml_is_not_html) (simp add: str_def)
  have v: "is_valid_url (env_urlparse xml_env) example_url"
    using example_url_valid by (simp add: xml_env_def example_env_def)
  have m: "env_md5_hexdigest xml_env example_url = example_url"
    by (simp add: xml_env_def example_env_def)
  have f: "fetch (env_session_get xml_env) no_trace =
          (Inr (Some xml_response), \<lparr>gets = 1, sleeps = []\<rparr>)"
    by (simp add: fetch_unrolled try_attempt_def xml_env_def xml_response_def
        raise_for_status_def)
  have h: "env_get_random_headers xml_env = Inr ()"
    by (simp add: xml_env_def example_env_def)
  have p: "process_response xml_env [] example_url xml_response =
     (Inr long_text, cache_store [] example_url 0 long_text)"
    by (simp add: process_response_def extract_and_store_def xml_env_def example_env_def
        xml_response_def lower_def lower_char_def
        str_def example_extraction [unfolded str_def, simplified] format_result_def part_if_def
        long_text_def Let_def)
  have "try_except xml_env [] example_url =
     (Inr long_text, cache_store [] example_url 0 long_text, \<lparr>gets = 1, sleeps = []\<rparr>)"
    unfolding try_except_def try_block_def using f h by (simp add: p)
  then have 2: "scrape_article xml_env [] example_url =
     (Inr long_text, cache_store [] example_url 0 long_text, \<lparr>gets = 1, sleeps = []\<rparr>)"
    using scrape_article_miss [OF v] by (simp add: m cache_hit_def)
  from 1 2 show ?thesis by simp
qed

lemma scrape_article_fetched:
  assumes valid: "is_valid_url (env_urlparse e) url"
    and miss: "cache_hit e cache (env_md5_hexdigest e url) = None"
    and headers: "env_get_random_headers e = Inr u"
    and fetched: "fetch (env_session_get e) no_trace = (Inr (Some r), tr)"
  shows "scrape_article e cache url =
     (case process_response e cache (env_md5_hexdigest e url) r of
        (Inr result, cache1) \<Rightarrow> (Inr result, cache1, tr)
      | (Inl ex, cache1) \<Rightarrow> (handle_exception ex, cache1, tr))"
  unfolding scrape_article_miss [OF valid miss] try_except_def try_block_def
  using headers fetched by (simp split: prod.split sum.split)

text \<open>
  Claim C9, amended: a fetched response is rejected exactly when its \<^verbatim>\<open>Content-Type\<close>
  value in lower case (the empty string when the header is missing) does not contain
  \<^verbatim>\<open>text/html\<close> anywhere; a response whose value contains it, in particular one whose
  media type is \<^verbatim>\<open>text/html\<close>, goes on to parsing and extraction.
\<close>

theorem content_type_gate:
  fixes e :: env and cache :: cache and url :: pstr and r :: response
  defines "h \<equiv> env_md5_hexdigest e url"
    and "v \<equiv> (case resp_content_type r of None \<Rightarrow> [] | Some v \<Rightarrow> v)"
  assumes valid: "is_valid_url (env_urlparse e) url"
    and miss: "cache_hit e cache h = None"
    and headers: "env_get_random_headers e = Inr u"
    and fetched: "fetch (env_session_get e) no_trace = (Inr (Some r), tr)"
  shows
    "(\<not> contains (str ''text/html'') (lower v) \<longrightarrow>
        scrape_article e cache url = (Inr (invalid_content_type_message (lower v)), cache, tr)) \<and>
     (contains (str ''text/html'') (lower v) \<longrightarrow>
        scrape_article e cache url =
          (case extract_and_store e cache h r of
             (Inr result, cache1) \<Rightarrow> (Inr result, cache1, tr)
           | (Inl ex, cache1) \<Rightarrow> (handle_exception ex, cache1, tr))) \<and>
     (mime_type v = str ''text/html'' \<longrightarrow> contains (str ''text/html'') (lower v))"
proof -
  note s = scrape_article_fetched [OF valid miss [unfolded h_def] headers fetched]
  show ?thesis
    unfolding s h_def v_def [symmetric]
    by (auto simp: process_response_def v_def [symmetric] Let_def mime_type_contained)
qed

theorem content_type_gate_witness:
  "scrape_article (example_env 0 0) [] example_url =
     (Inr long_text, cache_store [] example_url 0 long_text, \<lparr>gets = 1, sleeps = []\<rparr>) \<and>
   contains (str ''text/html'') (lower (str ''Text/HTML; charset=utf-8''))"
proof -
  have v: "is_valid_url (env_urlparse (example_env 0 0)) example_url"
    using example_url_valid by (simp add: example_env_def)
  have m: "env_md5_hexdigest (example_env 0 0) example_url = example_url"
    by (simp add: example_env_def)
  have f: "fetch (env_session_get (example_env 0 0)) no_trace =
          (Inr (Some html_response), \<lparr>gets = 1, sleeps = []\<rparr>)"
    by (simp add: fetch_unrolled try_attempt_def example_env_def html_response_def
        raise_for_status_def)
  have h: "env_get_random_headers (example_env 0 0) = Inr ()"
    by (simp add: example_env_def)
  have c: "cache_hit (example_env 0 0) [] (env_md5_hexdigest (example_env 0 0) example_url) = None"
    by (simp add: cache_hit_def)
  have ct: "contains (str ''text/html'') (lower (str ''Text/HTML; charset=utf-8''))"
    by (simp add: str_def lower_def lower_char_def)
  have x: "extract_and_store (example_env 0 0) [] example_url html_response =
     (Inr long_text, cache_store [] example_url 0 long_text)"
    using example_process [of 0 0 "[]" example_url] ct
    by (simp add: process_response_def html_response_def)
  from content_type_gate [OF v c h f] ct
  have "scrape_article (example_env 0 0) [] example_url =
     (Inr long_text, cache_store [] example_url 0 long_text, \<lparr>gets = 1, sleeps = []\<rparr>)"
    by (simp add: html_response_def [THEN arg_cong, of resp_content_type] m x)
  with ct show ?thesis by simp
qed

section \<open>Exceptions and the handlers\<close>

lemma handle_exception_returns:
  assumes "ex \<noteq> HTTPError None"
  shows "\<exists>s. handle_exception ex = Inr s"
proof (cases ex)
  case (HTTPError r)
  with assms obtain response where "r = Some response" by (cases r) auto
  with HTTPError show ?thesis by (simp add: Let_def)
qed simp_all

lemma handle_exception_raises:
  "handle_exception ex = Inl x \<longleftrightarrow>
     ex = HTTPError None \<and> x = PyException (none_has_no_attribute (str ''status_code''))"
proof (cases "ex = HTTPError None")
  case True
  then show ?thesis by auto
next
  case False
  from handle_exception_returns [OF this] False show ?thesis by auto
qed


text \<open>
  What does hold: an exception leaves \<^verbatim>\<open>scrape_article\<close> only in this way.  When the
  \<^verbatim>\<open>try\<close> block does not end in an \<open>HTTPError\<close> without response, the call returns a string:
  the message of line 462 for an invalid URL, and the message of its handler for an
  exception raised anywhere in the block (by the header builder, the requests,
  \<^verbatim>\<open>raise_for_status\<close>, the parser, the metadata reader).
\<close>

lemma scrape_article_raises_only_in_handler:
  assumes "fst (scrape_article e cache url) = Inl x"
  shows "is_valid_url (env_urlparse e) url"
    and "cache_hit e cache (env_md5_hexdigest e url) = None"
    and "fst (try_block e cache (env_md5_hexdigest e url)) = Inl (HTTPError None)"
    and "x = PyException (none_has_no_attribute (str ''status_code''))"
proof -
  show v: "is_valid_url (env_urlparse e) url"
    using assms by (rule contrapos_pp) (simp add: scrape_article_invalid)
  show c: "cache_hit e cache (env_md5_hexdigest e url) = None"
  proof (cases "cache_hit e cache (env_md5_hexdigest e url)")
    case (Some body)
    with v assms show ?thesis by (simp add: scrape_article_hit)
  qed simp
  obtain r0 c0 t0 where t: "try_block e cache (env_md5_hexdigest e url) = (r0, c0, t0)"
    by (metis prod_cases3)
  from assms have "fst (try_except e cache (env_md5_hexdigest e url)) = Inl x"
    by (simp add: scrape_article_miss [OF v c])
  then obtain ex where "r0 = Inl ex" "handle_exception ex = Inl x"
    using t by (cases r0) (simp_all add: try_except_def)
  then show "fst (try_block e cache (env_md5_hexdigest e url)) = Inl (HTTPError None)"
    and "x = PyException (none_has_no_attribute (str ''status_code''))"
    using t by (simp_all add: handle_exception_raises)
qed

lemma scrape_article_returns_string:
  assumes "fst (try_block e cache (env_md5_hexdigest e url)) \<noteq> Inl (HTTPError None)"
  shows "\<exists>s. fst (scrape_article e cache url) = Inr s"
proof (cases "fst (scrape_article e cache url)")
  case (Inl x)
  from scrape_article_raises_only_in_handler(3) [OF this] assms show ?thesis by simp
next
  case (Inr s)
  then show ?thesis by simp
qed

lemma exception_is_reported:
  assumes "is_valid_url (env_urlparse e) url"
    and "cache_hit e cache (env_md5_hexdigest e url) = None"
    and "try_block e cache (env_md5_hexdigest e url) = (Inl ex, c1, tr)"
  shows "scrape_article e cache url = (handle_exception ex, c1, tr)"
  using assms by (simp add: scrape_article_miss try_except_def)

lemma not_found_is_reported:
  "scrape_article not_found_env [] example_url =
     (Inr ([0xF8FF, 0xFC, 0xEE, 0xE7] @ str '' Page not found. Please verify the URL is correct.''),
      [], \<lparr>gets = 3, sleeps = [1, 2]\<rparr>)"
proof -
  have v: "is_valid_url (env_urlparse not_found_env) example_url"
    using example_url_valid by (simp add: not_found_env_def example_env_def)
  have c: "cache_hit not_found_env [] (env_md5_hexdigest not_found_env example_url) = None"
    by (simp add: cache_hit_def)
  have g: "env_session_get not_found_env = always_not_found"
    and h: "env_get_random_headers not_found_env = Inr ()"
    by (simp_all add: not_found_env_def example_env_def)
  have f: "fetch always_not_found no_trace =
     (Inl (HTTPError (Some not_found)), \<lparr>gets = 3, sleeps = [1, 2]\<rparr>)"
    by (simp add: fetch_unrolled try_attempt_def always_not_found_def
        not_found_def raise_for_status_def)
  have t: "try_block not_found_env [] (env_md5_hexdigest not_found_env example_url) =
     (Inl (HTTPError (Some not_found)), [], \<lparr>gets = 3, sleeps = [1, 2]\<rparr>)"
    by (simp add: try_block_def g h f)
  from exception_is_reported [OF v c t] show ?thesis by (simp add: not_found_def)
qed

section \<open>URL validation\<close>

text \<open>
  Claim C4 at the URL \<^verbatim>\<open>http://a.b/\<close> followed by U+212A: the URL has a character
  that is not ASCII, yet it passes \<^verbatim>\<open>is_valid_url\<close> and the page is requested.
\<close>

theorem kelvin_url_is_fetched:
  "list_ex (\<lambda>c. 127 < c) kelvin_url \<and>
   is_valid_url example_urlparse kelvin_url \<and>
   scrape_article (example_env 0 0) [] kelvin_url =
     (Inr long_text, cache_store [] kelvin_url 0 long_text, \<lparr>gets = 1, sleeps = []\<rparr>)"
proof -
  have 1: "list_ex (\<lambda>c. 127 < c) kelvin_url" by (simp add: kelvin_url_def)
  have 2: "is_valid_url example_urlparse kelvin_url"
    by (simp add: is_valid_url_def example_urlparse_def kelvin_url_def str_def
      suspicious_patterns_def non_ascii_ci_def ci_matches_def)
  then have v: "is_valid_url (env_urlparse (example_env 0 0)) kelvin_url"
    by (simp add: example_env_def)
  have m: "env_md5_hexdigest (example_env 0 0) kelvin_url = kelvin_url"
    by (simp add: example_env_def)
  have 3: "scrape_article (example_env 0 0) [] kelvin_url =
     (Inr long_text, cache_store [] kelvin_url 0 long_text, \<lparr>gets = 1, sleeps = []\<rparr>)"
    using scrape_article_miss [OF v] by (simp add: m cache_hit_def example_try)
  from 1 2 3 show ?thesis by simp
qed

text \<open>What does hold: a URL that \<^verbatim>\<open>is_valid_url\<close> rejects is answered without any request.\<close>

lemma rejected_url_makes_no_request:
  assumes "\<not> is_valid_url (env_urlparse e) url"
  shows "scrape_article e cache url = (Inr invalid_url_message, cache, no_trace)"
    and "gets (snd (snd (scrape_article e cache url))) = 0"
  using assms by (simp_all add: scrape_article_invalid no_trace_def)

lemma is_valid_url_rejects:
  assumes "env_urlparse e url = Inr (scheme, netloc)"
    and "scheme \<notin> {str ''http'', str ''https''} \<or> netloc = [] \<or>
         list_ex non_ascii_ci url \<or> ci_search (str ''javascript:'') url \<or>
         ci_search (str ''data:'') url \<or> ci_search (str ''file:'') url"
  shows "\<not> is_valid_url (env_urlparse e) url"
  using assms by (auto simp: is_valid_url_def suspicious_patterns_def)

section \<open>Choosing among the strategies\<close>

lemma strategies_loop_choose:
  "strategies_loop strategies soup (bc, bs, bm) =
     (case choose_best (candidates_of (strategy_results strategies soup)) (bc, bm, bs) of
        (c, m, s) \<Rightarrow> (c, s, m),
      snd (strategies_loop strategies soup (bc, bs, bm)))"
proof (induction strategies arbitrary: soup bc bs bm)
  case Nil
  then show ?case by simp
next
  case (Cons strategy rest)
  obtain result soup1 where r: "strategy soup = (result, soup1)" by force
  show ?case
  proof (cases result)
    case (Inl e)
    with r Cons [of soup1 bc bs bm] show ?thesis by simp
  next
    case (Inr c)
    obtain content metadata score where c: "c = (content, metadata, score)"
      by (metis prod_cases3)
    show ?thesis
      using r Inr c Cons [of soup1 content score metadata] Cons [of soup1 bc bs bm]
      by (simp add: cand_score_def cand_content_def)
  qed
qed

lemma choose_first_best:
  "(choose_best cs b = b \<and> (\<forall>c \<in> set cs. long_enough c \<longrightarrow> cand_score c \<le> cand_score b)) \<or>
   (\<exists>i < length cs. choose_best cs b = cs ! i \<and> cand_score b < cand_score (cs ! i) \<and>
      long_enough (cs ! i) \<and>
      (\<forall>j < length cs. long_enough (cs ! j) \<longrightarrow> cand_score (cs ! j) \<le> cand_score (cs ! i)) \<and>
      (\<forall>j < i. long_enough (cs ! j) \<longrightarrow> cand_score (cs ! j) < cand_score (cs ! i)))"
proof (induction cs arbitrary: b)
  case Nil
  then show ?case by simp
next
  case (Cons c cs)
  show ?case
  proof (cases "cand_score c > cand_score b \<and> long_enough c")
    case True
    then have ch: "choose_best (c # cs) b = choose_best cs c" by (simp add: long_enough_def)
    from Cons [of c] show ?thesis
    proof (elim disjE conjE exE)
      assume "choose_best cs c = c" and all: "\<forall>c' \<in> set cs. long_enough c' \<longrightarrow> cand_score c' \<le> cand_score c"
      then have "choose_best (c # cs) b = (c # cs) ! 0" using ch by simp
      moreover have "\<forall>j < length (c # cs). long_enough ((c # cs) ! j) \<longrightarrow>
          cand_score ((c # cs) ! j) \<le> cand_score ((c # cs) ! 0)"
        using all by (auto simp: nth_Cons split: nat.splits)
      ultimately show ?thesis using True by (intro disjI2 exI [of _ 0]) simp
    next
      fix i
      assume i: "i < length cs" "choose_best cs c = cs ! i" "cand_score c < cand_score (cs ! i)"
        "long_enough (cs ! i)"
        and le: "\<forall>j < length cs. long_enough (cs ! j) \<longrightarrow> cand_score (cs ! j) \<le> cand_score (cs ! i)"
        and lt: "\<forall>j < i. long_enough (cs ! j) \<longrightarrow> cand_score (cs ! j) < cand_score (cs ! i)"
      have "\<forall>j < length (c # cs). long_enough ((c # cs) ! j) \<longrightarrow>
          cand_score ((c # cs) ! j) \<le> cand_score ((c # cs) ! Suc i)"
        using le i(3) by (auto simp: nth_Cons split: nat.splits)
      moreover have "\<forall>j < Suc i. long_enough ((c # cs) ! j) \<longrightarrow>
          cand_score ((c # cs) ! j) < cand_score ((c # cs) ! Suc i)"
        using lt i(3) by (auto simp: nth_Cons split: nat.splits)
      moreover have "cand_score b < cand_score ((c # cs) ! Suc i)" using True i(3) by simp
      ultimately show ?thesis using i ch by (intro disjI2 exI [of _ "Suc i"]) simp
    qed
  next
    case False
    then have ch: "choose_best (c # cs) b = choose_best cs b" by (auto simp: long_enough_def)
    from False have c: "long_enough c \<longrightarrow> cand_score c \<le> cand_score b" by auto
    from Cons [of b] show ?thesis
    proof (elim disjE conjE exE)
      assume "choose_best cs b = b" and "\<forall>c' \<in> set cs. long_enough c' \<longrightarrow> cand_score c' \<le> cand_score b"
      with c ch show ?thesis by simp
    next
      fix i
      assume i: "i < length cs" "choose_best cs b = cs ! i" "cand_score b < cand_score (cs ! i)"
        "long_enough (cs ! i)"
        and le: "\<forall>j < length cs. long_enough (cs ! j) \<longrightarrow> cand_score (cs ! j) \<le> cand_score (cs ! i)"
        and lt: "\<forall>j < i. long_enough (cs ! j) \<longrightarrow> cand_score (cs ! j) < cand_score (cs ! i)"
      have "\<forall>j < length (c # cs). long_enough ((c # cs) ! j) \<longrightarrow>
          cand_score ((c # cs) ! j) \<le> cand_score ((c # cs) ! Suc i)"
        using le c i(3) by (auto simp: nth_Cons split: nat.splits)
      moreover have "\<forall>j < Suc i. long_enough ((c # cs) ! j) \<longrightarrow>
          cand_score ((c # cs) ! j) < cand_score ((c # cs) ! Suc i)"
        using lt c i(3) by (auto simp: nth_Cons split: nat.splits)
      ultimately show ?thesis using i ch by (intro disjI2 exI [of _ "Suc i"]) simp
    qed
  qed
qed

lemma run_strategies_choose:
  "fst (run_strategies strategies soup) =
     (cand_content (choose_best (candidates_of (strategy_results strategies soup)) ([], None, 0)),
      cand_metadata (choose_best (candidates_of (strategy_results strategies soup)) ([], None, 0)))"
  unfolding run_strategies_def
  by (subst strategies_loop_choose) (simp add: cand_content_def cand_metadata_def split: prod.split)

lemma best_content_empty_or_long:
  "fst (fst (run_strategies strategies soup)) = [] \<or>
   200 < length (fst (fst (run_strategies strategies soup)))"
  using choose_first_best [of "candidates_of (strategy_results strategies soup)" "([], None, 0)"]
  by (auto simp: run_strategies_choose long_enough_def cand_content_def)

lemma extract_and_store_cases:
  assumes "env_parse_html e (resp_content r) = Inr parsed"
    and "env_extract_comprehensive_metadata e (sanitize parsed) = Inr metadata"
    and "fst (advanced_content_extraction (env_readers e) (sanitize parsed)) = (content, cm)"
  shows "if content = [] then extract_and_store e cache h r = (Inr insufficient_content_message, cache)
     else 200 < length content \<and>
       extract_and_store e cache h r =
         (Inr (format_result metadata content cm),
          cache_store cache h (env_time_store e) (format_result metadata content cm))"
proof -
  have "content = [] \<or> 200 < length content"
    using best_content_empty_or_long [of "extraction_strategies (env_readers e)" "sanitize parsed"]
      assms(3) by (simp add: advanced_content_extraction_def)
  then show ?thesis
    using assms by (auto simp: extract_and_store_def Let_def split: prod.splits)
qed

text \<open>
  Claim C5, as stated, fails: on a page where the only candidate longer than 200 characters
  has the score 0, that candidate has the highest score among the candidates longer than
  200 characters, but nothing is selected and the call reports insufficient content.
\<close>

theorem zero_score_candidate_not_selected:
  "candidates_of (strategy_results (extraction_strategies sparse_readers) empty_document) =
     [([], None, 0), ([], None, 0), (long_text, None, 0), ([], None, 0)] \<and>
   long_enough (long_text, None, 0) \<and>
   fst (advanced_content_extraction sparse_readers empty_document) = ([], None) \<and>
   fst (scrape_article sparse_env [] example_url) = Inr insufficient_content_message"
proof -
  have lh: "extract_by_length_heuristics empty_document = (Inr ([], None, 0), empty_document)"
    by (simp add: extract_by_length_heuristics_def empty_document_def find_all_def)
  have 1: "candidates_of (strategy_results (extraction_strategies sparse_readers) empty_document) =
     [([], None, 0), ([], None, 0), (long_text, None, 0), ([], None, 0)]"
    by (simp add: extraction_strategies_def reading_def sparse_readers_def lh)
  have 2: "long_enough (long_text, None, 0)"
    by (simp add: long_enough_def cand_content_def long_text_def)
  have 3: "fst (advanced_content_extraction sparse_readers empty_document) = ([], None)"
    by (simp add: advanced_content_extraction_def run_strategies_choose 1 cand_score_def
        cand_content_def cand_metadata_def)
  have s: "sanitize empty_document = empty_document"
    by (simp add: sanitize_def unwanted_selectors_def select_def empty_document_def)
  have v: "is_valid_url (env_urlparse sparse_env) example_url"
    using example_url_valid by (simp add: sparse_env_def example_env_def)
  have c: "cache_hit sparse_env [] (env_md5_hexdigest sparse_env example_url) = None"
    by (simp add: cache_hit_def)
  have h: "env_get_random_headers sparse_env = Inr ()"
    and g: "env_session_get sparse_env = (\<lambda>attempt. Inr html_response)"
    and p: "env_parse_html sparse_env = (\<lambda>bytes. Inr empty_document)"
    and rd: "env_readers sparse_env = sparse_readers"
    and md: "env_extract_comprehensive_metadata sparse_env =
         (\<lambda>soup. Inr \<lparr> meta_title = None, meta_author = None, meta_publish_date = None,
                       meta_description = None \<rparr>)"
    by (simp_all add: sparse_env_def example_env_def empty_document_def)
  have f: "fetch (\<lambda>attempt. Inr html_response) no_trace =
          (Inr (Some html_response), \<lparr>gets = 1, sleeps = []\<rparr>)"
    by (simp add: fetch_unrolled try_attempt_def html_response_def raise_for_status_def)
  have ct: "contains (str ''text/html'') (lower (str ''Text/HTML; charset=utf-8''))"
    by (simp add: str_def lower_def lower_char_def)
  obtain cm where a: "advanced_content_extraction sparse_readers empty_document = (([], None), cm)"
    using 3 by (metis prod.collapse)
  have x: "extract_and_store sparse_env [] example_url html_response =
     (Inr insufficient_content_message, [])"
    by (simp add: extract_and_store_def p rd s a md)
  have "process_response sparse_env [] (env_md5_hexdigest sparse_env example_url) html_response =
     (Inr insufficient_content_message, [])"
    using ct x by (simp add: process_response_def html_response_def sparse_env_def example_env_def)
  then have 4: "fst (scrape_article sparse_env [] example_url) = Inr insufficient_content_message"
    using scrape_article_fetched [OF v c h f [folded g]] by simp
  from 1 2 3 4 show ?thesis by simp
qed

text \<open>
  Claim C5, amended: the candidate selected is the first one, in the order of the
  strategies, whose score is the highest among the candidates longer than 200 characters,
  provided that this score is positive; when no candidate is longer than 200 characters
  with a positive score, nothing is selected and \<^verbatim>\<open>scrape_article\<close> reports insufficient
  content.  The selected text is empty or longer than 200 characters, so a formatted
  result always carries a body of more than 200 characters.
\<close>

theorem best_candidate_selected:
  fixes strategies :: "strategy list" and soup :: node
  defines "cs \<equiv> candidates_of (strategy_results strategies soup)"
    and "best \<equiv> fst (run_strategies strategies soup)"
  shows
    "((\<forall>c \<in> set cs. \<not> (long_enough c \<and> 0 < cand_score c)) \<longrightarrow> best = ([], None)) \<and>
     ((\<exists>c \<in> set cs. long_enough c \<and> 0 < cand_score c) \<longrightarrow>
        (\<exists>i < length cs.
           best = (cand_content (cs ! i), cand_metadata (cs ! i)) \<and>
           long_enough (cs ! i) \<and> 0 < cand_score (cs ! i) \<and>
           (\<forall>j < length cs. long_enough (cs ! j) \<longrightarrow> cand_score (cs ! j) \<le> cand_score (cs ! i)) \<and>
           (\<forall>j < i. long_enough (cs ! j) \<longrightarrow> cand_score (cs ! j) < cand_score (cs ! i)))) \<and>
     (fst best = [] \<or> 200 < length (fst best)) \<and>
     (\<forall>(e :: env) cache h (r :: response) parsed metadata content cm.
        env_parse_html e (resp_content r) = Inr parsed \<and>
        env_extract_comprehensive_metadata e (sanitize parsed) = Inr metadata \<and>
        fst (advanced_content_extraction (env_readers e) (sanitize parsed)) = (content, cm) \<longrightarrow>
        (if content = []
         then extract_and_store e cache h r = (Inr insufficient_content_message, cache)
         else 200 < length content \<and>
           extract_and_store e cache h r =
             (Inr (format_result metadata content cm),
              cache_store cache h (env_time_store e) (format_result metadata content cm))))"
proof (intro conjI impI allI)
  note fb = choose_first_best [of cs "([], None, 0)", unfolded cand_score_def [of "([], None, 0)"],
      simplified]
  have best: "best = (cand_content (choose_best cs ([], None, 0)),
      cand_metadata (choose_best cs ([], None, 0)))"
    unfolding best_def cs_def by (rule run_strategies_choose)
  {
    assume none: "\<forall>c \<in> set cs. \<not> (long_enough c \<and> 0 < cand_score c)"
    from fb have "choose_best cs ([], None, 0) = ([], None, 0)"
    proof (elim disjE exE conjE)
      fix i
      assume "i < length cs" "0 < cand_score (cs ! i)" "long_enough (cs ! i)"
      with none nth_mem [of i cs] show ?thesis by blast
    qed
    then show "best = ([], None)" by (simp add: best cand_content_def cand_metadata_def)
  }
  {
    assume some: "\<exists>c \<in> set cs. long_enough c \<and> 0 < cand_score c"
    from fb show "\<exists>i < length cs.
           best = (cand_content (cs ! i), cand_metadata (cs ! i)) \<and>
           long_enough (cs ! i) \<and> 0 < cand_score (cs ! i) \<and>
           (\<forall>j < length cs. long_enough (cs ! j) \<longrightarrow> cand_score (cs ! j) \<le> cand_score (cs ! i)) \<and>
           (\<forall>j < i. long_enough (cs ! j) \<longrightarrow> cand_score (cs ! j) < cand_score (cs ! i))"
    proof (elim disjE exE conjE)
      assume "\<forall>c \<in> set cs. long_enough c \<longrightarrow> cand_score c \<le> 0"
      with some show ?thesis by (auto simp: not_less [symmetric])
    next
      fix i
      assume "i < length cs" "choose_best cs ([], None, 0) = cs ! i"
        "0 < cand_score (cs ! i)" "long_enough (cs ! i)"
        "\<forall>j < length cs. long_enough (cs ! j) \<longrightarrow> cand_score (cs ! j) \<le> cand_score (cs ! i)"
        "\<forall>j < i. long_enough (cs ! j) \<longrightarrow> cand_score (cs ! j) < cand_score (cs ! i)"
      then show ?thesis unfolding best by (intro exI [of _ i]) simp
    qed
  }
  show "fst best = [] \<or> 200 < length (fst best)"
    unfolding best_def by (rule best_content_empty_or_long)
next
  fix e :: env and cache h and r :: response and parsed metadata content cm
  assume "env_parse_html e (resp_content r) = Inr parsed \<and>
        env_extract_comprehensive_metadata e (sanitize parsed) = Inr metadata \<and>
        fst (advanced_content_extraction (env_readers e) (sanitize parsed)) = (content, cm)"
  then show "if content = []
         then extract_and_store e cache h r = (Inr insufficient_content_message, cache)
         else 200 < length content \<and>
           extract_and_store e cache h r =
             (Inr (format_result metadata content cm),
              cache_store cache h (env_time_store e) (format_result metadata content cm))"
    using extract_and_store_cases [of e r parsed metadata content cm cache h] by blast
qed

theorem best_candidate_selected_witness:
  "candidates_of (strategy_results (extraction_strategies example_readers) empty_document) =
     [(long_text, None, 100), ([], None, 0), ([], None, 0)] \<and>
   fst (run_strategies (extraction_strategies example_readers) empty_document) = (long_text, None)"
proof -
  let ?cs = "[(long_text, None, 100), ([], None, 0), ([], None, 0)] :: candidate list"
  have lh: "extract_by_length_heuristics empty_document = (Inr ([], None, 0), empty_document)"
    by (simp add: extract_by_length_heuristics_def empty_document_def find_all_def)
  have cs: "candidates_of (strategy_results (extraction_strategies example_readers) empty_document) = ?cs"
    by (simp add: extraction_strategies_def reading_def example_readers_def lh)
  have ex: "\<exists>c \<in> set ?cs. long_enough c \<and> 0 < cand_score c"
    by (simp add: long_enough_def cand_content_def cand_score_def long_text_def)
  from best_candidate_selected [of "extraction_strategies example_readers" empty_document,
      unfolded cs, THEN conjunct2, THEN conjunct1, rule_format, OF ex]
  obtain i where i: "i < length ?cs"
    "fst (run_strategies (extraction_strategies example_readers) empty_document) =
       (cand_content (?cs ! i), cand_metadata (?cs ! i))"
    "0 < cand_score (?cs ! i)" by blast
  from i(1) have "i = 0 \<or> i = 1 \<or> i = 2" by auto
  with i(3) have "i = 0" by (auto simp: cand_score_def)
  with i(2) cs show ?thesis by (simp add: cand_content_def cand_metadata_def)
qed

section \<open>Scores are floats\<close>

text \<open>
  The scores of the two elements of \<open>two_div_document\<close> are \<^verbatim>\<open>0.41\<close> and
  \<^verbatim>\<open>0.16 + 4 - 3.75\<close>.  As rationals these are equal; as floats the second is
  \<^verbatim>\<open>0.41000000000000014\<close>, so the loop of the length heuristics moves on to the second
  element.
\<close>

lemma score_first:
  "length_heuristic_score (subtree two_div_document [0]) = 7385903388887613 / 18014398509481984"
  by code_simp

lemma score_second:
  "length_heuristic_score (subtree two_div_document [1]) = 115404740451369 / 281474976710656"
  by code_simp

lemma float_rounding_decides:
  "find_all candidate_tags two_div_document = [[0], [1]] \<and>
   length_heuristics_loop [[0], [1]] two_div_document None 0 =
     (two_div_document, Some [1], 115404740451369 / 281474976710656) \<and>
   (41 / 100 :: rat) = 16 / 100 + 4 - 3 / 16 * 20"
  by code_simp

section \<open>What the strategies do to the tree\<close>

lemma length_heuristics_loop_keeps:
  assumes "list_all (\<lambda>element. find_all unwanted_tags (subtree soup element) = []) candidates"
  shows "fst (length_heuristics_loop candidates soup best_element best_score) = soup"
  using assms
proof (induction candidates arbitrary: best_element best_score)
  case Nil
  then show ?case by simp
next
  case (Cons element candidates)
  then have "remove_unwanted element soup = soup" by (simp add: remove_unwanted_def)
  with Cons show ?case by (simp add: Let_def)
qed

lemma length_heuristics_keeps:
  assumes "nothing_to_remove soup"
  shows "snd (extract_by_length_heuristics soup) = soup"
proof -
  let ?l = "length_heuristics_loop (find_all candidate_tags soup) soup None 0"
  have "fst ?l = soup"
    using assms unfolding nothing_to_remove_def by (rule length_heuristics_loop_keeps)
  then obtain be bs where "?l = (soup, be, bs)" by (metis prod.collapse)
  then show ?thesis
    by (simp add: extract_by_length_heuristics_def Let_def split: option.split sum.split)
qed

lemma strategy_results_keeping:
  assumes "\<forall>strategy \<in> set strategies. snd (strategy soup) = soup"
  shows "strategy_results strategies soup = map (\<lambda>strategy. fst (strategy soup)) strategies \<and>
         snd (strategies_loop strategies soup best) = soup"
  using assms
proof (induction strategies arbitrary: best)
  case Nil
  then show ?case by simp
next
  case (Cons strategy rest)
  obtain result where r: "strategy soup = (result, soup)"
    using Cons.prems by (metis list.set_intros(1) prod.collapse)
  obtain bc bs bm where b: "best = (bc, bs, bm)" by (metis prod_cases3)
  from Cons have ih: "strategy_results rest soup = map (\<lambda>strategy. fst (strategy soup)) rest"
    "\<And>best. snd (strategies_loop rest soup best) = soup" by simp_all
  show ?case using r b ih by (simp split: sum.split prod.split)
qed

text \<open>
  Claim C2, as stated, fails: the length heuristics decompose the \<^verbatim>\<open>nav\<close> element of
  the page, and the strategy that runs next reads a different text than it would have read
  from the tree as it was.
\<close>

theorem length_heuristics_change_the_tree:
  "snd (extract_by_length_heuristics nav_document) \<noteq> nav_document \<and>
   get_text nav_document = str ''menubody'' \<and>
   get_text (snd (extract_by_length_heuristics nav_document)) = str ''body'' \<and>
   strategy_results [extract_by_length_heuristics, reading text_reader] nav_document ! 1 =
     Inr (str ''body'', None, 1) \<and>
   strategy_results [reading text_reader, extract_by_length_heuristics] nav_document ! 0 =
     Inr (str ''menubody'', None, 1)"
proof -
  have c: "find_all candidate_tags nav_document = [[0]]"
    by (simp add: find_all_def candidate_tags_def nav_document_def str_def)
  have r: "remove_unwanted [0] nav_document =
     Elem (str ''[document]'') []
       [Elem (str ''div'') [] [Decomposed, Text (str ''body'')]]"
    by (simp add: remove_unwanted_def find_all_def unwanted_tags_def nav_document_def str_def)
  have l: "fst (length_heuristics_loop [[0]] nav_document None 0) =
     Elem (str ''[document]'') []
       [Elem (str ''div'') [] [Decomposed, Text (str ''body'')]]"
    by (simp add: r Let_def)
  have s: "snd (extract_by_length_heuristics nav_document) =
     Elem (str ''[document]'') []
       [Elem (str ''div'') [] [Decomposed, Text (str ''body'')]]"
    using l unfolding extract_by_length_heuristics_def c Let_def
    by (auto split: prod.splits option.splits sum.splits)
  have 1: "snd (extract_by_length_heuristics nav_document) \<noteq> nav_document"
    unfolding s by (simp add: nav_document_def)
  have 2: "get_text nav_document = str ''menubody''"
    by (simp add: nav_document_def str_def)
  have 3: "get_text (snd (extract_by_length_heuristics nav_document)) = str ''body''"
    by (simp add: s)
  have 4: "strategy_results [extract_by_length_heuristics, reading text_reader] nav_document ! 1 =
     Inr (str ''body'', None, 1)"
    using 3 by (auto simp: reading_def text_reader_def split: prod.split)
  have 5: "strategy_results [reading text_reader, extract_by_length_heuristics] nav_document ! 0 =
     Inr (str ''menubody'', None, 1)"
    using 2 by (auto simp: reading_def text_reader_def split: prod.split)
  from 1 2 3 4 5 show ?thesis by blast
qed

lemma find_paths_list_empty:
  "find_paths_list P i cs = [] \<longleftrightarrow> (\<forall>c \<in> set cs. \<not> P c \<and> find_paths P c = [])"
  by (induction cs arbitrary: i) auto

lemma fold_decompose_Decomposed: "fold decompose ps Decomposed = Decomposed"
proof (induction ps)
  case Nil
  then show ?case by simp
next
  case (Cons p ps)
  then show ?case by (cases p) simp_all
qed

lemma fold_decompose_child:
  "i < length cs \<Longrightarrow>
   fold decompose (map ((#) i) ps) (Elem n a cs) = Elem n a (cs[i := fold decompose ps (cs ! i)])"
  by (induction ps arbitrary: cs) simp_all

lemma fold_decompose_find_paths:
  "fold decompose (find_paths P t) t = purge P t"
  "length pre = i \<Longrightarrow>
   fold decompose (find_paths_list P i cs) (Elem n a (pre @ cs)) =
     Elem n a (pre @ map (\<lambda>c. if P c then Decomposed else purge P c) cs)"
proof (induction P t and P i cs arbitrary: and pre n a rule: find_paths_find_paths_list.induct)
  case (1 P n a cs)
  from "1.IH" [of "[]" n a] show ?case by simp
next
  case (2 P s)
  then show ?case by simp
next
  case (3 P s)
  then show ?case by simp
next
  case (4 P)
  then show ?case by simp
next
  case (5 P i)
  then show ?case by simp
next
  case (6 P i c cs)
  have i: "i < length (pre @ c # cs)" using "6.prems" by simp
  have nth: "(pre @ c # cs) ! i = c" using "6.prems" by (simp add: nth_append)
  have upd: "(pre @ c # cs)[i := x] = pre @ x # cs" for x
    using "6.prems" by (simp add: list_update_append)
  show ?case
  proof (cases "P c")
    case True
    have "fold decompose (find_paths_list P i (c # cs)) (Elem n a (pre @ c # cs)) =
        fold decompose (find_paths_list P (Suc i) cs)
          (fold decompose (map ((#) i) (find_paths P c)) (Elem n a (pre @ Decomposed # cs)))"
      using True i by (simp add: nth upd)
    also have "fold decompose (map ((#) i) (find_paths P c)) (Elem n a (pre @ Decomposed # cs)) =
        Elem n a ((pre @ [Decomposed]) @ cs)"
      using "6.prems" by (simp add: fold_decompose_child nth_append fold_decompose_Decomposed
          list_update_append)
    also have "fold decompose (find_paths_list P (Suc i) cs) (Elem n a ((pre @ [Decomposed]) @ cs)) =
        Elem n a ((pre @ [Decomposed]) @ map (\<lambda>c. if P c then Decomposed else purge P c) cs)"
      using "6.prems" by (intro "6.IH"(2)) simp
    finally show ?thesis using True by simp
  next
    case False
    have "fold decompose (find_paths_list P i (c # cs)) (Elem n a (pre @ c # cs)) =
        fold decompose (find_paths_list P (Suc i) cs)
          (fold decompose (map ((#) i) (find_paths P c)) (Elem n a (pre @ c # cs)))"
      using False by simp
    also have "fold decompose (map ((#) i) (find_paths P c)) (Elem n a (pre @ c # cs)) =
        Elem n a ((pre @ [purge P c]) @ cs)"
      using i by (simp add: fold_decompose_child nth upd "6.IH"(1))
    also have "fold decompose (find_paths_list P (Suc i) cs) (Elem n a ((pre @ [purge P c]) @ cs)) =
        Elem n a ((pre @ [purge P c]) @ map (\<lambda>c. if P c then Decomposed else purge P c) cs)"
      using "6.prems" by (intro "6.IH"(2)) simp
    finally show ?thesis using False by simp
  qed
qed

lemma shallow_has_tag: "shallow (has_tag names)"
  by (simp add: shallow_def)

lemma shallow_matches: "shallow (matches sel)"
  by (cases sel) (simp_all add: shallow_def classes_of_def)

lemma shallow_purge: "shallow Q \<Longrightarrow> Q (purge P c) = Q c"
  by (cases c) (auto simp: shallow_def)

lemma find_paths_purge:
  assumes "shallow Q" and "find_paths Q t = [] \<or> Q = P"
  shows "find_paths Q (purge P t) = []"
  using assms(2)
proof (induction t)
  case (Elem n a cs)
  have "\<not> Q c' \<and> find_paths Q c' = []"
    if "c' \<in> set (map (\<lambda>c. if P c then Decomposed else purge P c) cs)" for c'
  proof -
    from that obtain c where c: "c \<in> set cs" "c' = (if P c then Decomposed else purge P c)"
      by auto
    show ?thesis
    proof (cases "P c")
      case True
      with c assms(1) show ?thesis by (simp add: shallow_def)
    next
      case False
      from Elem.prems have "\<not> Q c \<and> (find_paths Q c = [] \<or> Q = P)"
        using c(1) False by (auto simp: find_paths_list_empty)
      with Elem.IH [OF c(1)] c False assms(1) show ?thesis by (simp add: shallow_purge)
    qed
  qed
  then show ?case by (simp add: find_paths_list_empty del: set_map)
qed simp_all

lemma sanitize_purge:
  "sanitize soup = fold (\<lambda>selector. purge (matches selector)) unwanted_selectors soup"
  by (simp add: sanitize_def select_def fold_decompose_find_paths(1))

lemma fold_purge_keeps_absent:
  "shallow Q \<Longrightarrow> find_paths Q t = [] \<Longrightarrow>
   find_paths Q (fold (\<lambda>selector. purge (matches selector)) sels t) = []"
  by (induction sels arbitrary: t) (simp_all add: find_paths_purge)

lemma fold_purge_removes:
  "sel \<in> set sels \<Longrightarrow>
   find_paths (matches sel) (fold (\<lambda>selector. purge (matches selector)) sels t) = []"
proof (induction sels arbitrary: t)
  case Nil
  then show ?case by simp
next
  case (Cons s sels)
  show ?case
  proof (cases "sel = s")
    case True
    have "find_paths (matches s) (purge (matches s) t) = []"
      using shallow_matches by (rule find_paths_purge) simp
    then show ?thesis using True by (simp add: fold_purge_keeps_absent shallow_matches)
  next
    case False
    with Cons show ?thesis by simp
  qed
qed

lemma find_paths_mono:
  assumes "\<And>c. P c \<Longrightarrow> \<exists>Q \<in> set Qs. Q c" and "\<forall>Q \<in> set Qs. find_paths Q t = []"
  shows "find_paths P t = []"
  using assms(2)
proof (induction t)
  case (Elem n a cs)
  have "\<not> P c \<and> find_paths P c = []" if c: "c \<in> set cs" for c
  proof -
    from Elem.prems c have q: "\<forall>Q \<in> set Qs. \<not> Q c \<and> find_paths Q c = []"
      by (auto simp: find_paths_list_empty)
    with assms(1) [of c] Elem.IH [OF c] show ?thesis by blast
  qed
  then show ?case by (simp add: find_paths_list_empty)
qed simp_all

lemma find_paths_subtree: "find_paths P t = [] \<Longrightarrow> find_paths P (subtree t p) = []"
proof (induction t p rule: subtree.induct)
  case (2 n a cs i p)
  then show ?case by (auto simp: find_paths_list_empty)
qed simp_all

lemma sanitize_no_unwanted: "find_all unwanted_tags (sanitize soup) = []"
proof -
  let ?Qs = "map (\<lambda>n. matches (Tag n)) unwanted_tags"
  have r: "find_paths (matches sel) (sanitize soup) = []" if "sel \<in> set unwanted_selectors" for sel
    unfolding sanitize_purge using that by (rule fold_purge_removes)
  have "Tag n \<in> set unwanted_selectors" if "n \<in> set unwanted_tags" for n
    using that by (auto simp: unwanted_tags_def unwanted_selectors_def)
  then have "\<forall>Q \<in> set ?Qs. find_paths Q (sanitize soup) = []"
    using r by auto
  moreover have "\<exists>Q \<in> set ?Qs. Q c" if "has_tag unwanted_tags c" for c
    using that by (cases c) (auto simp: unwanted_tags_def)
  ultimately show ?thesis unfolding find_all_def by (intro find_paths_mono [of _ ?Qs]) blast+
qed

lemma sanitize_nothing_to_remove: "nothing_to_remove (sanitize soup)"
  using sanitize_no_unwanted [of soup]
  by (simp add: nothing_to_remove_def find_all_def list_all_iff find_paths_subtree)

lemma extraction_strategies_keep:
  assumes "nothing_to_remove soup"
  shows "\<forall>strategy \<in> set (extraction_strategies rd). snd (strategy soup) = soup"
  using length_heuristics_keeps [OF assms]
  by (simp add: extraction_strategies_def reading_def)

text \<open>
  Claim C2, amended: the semantic, text-density and readability strategies only read the
  tree.  The length heuristics decompose the \<^verbatim>\<open>nav\<close>, \<^verbatim>\<open>aside\<close>, \<^verbatim>\<open>footer\<close> and
  \<^verbatim>\<open>header\<close> elements below their candidates; they leave the tree as it is when no
  candidate has such an element below it, which is so for every tree that
  \<^verbatim>\<open>scrape_article\<close> has sanitized.  On such a tree every strategy receives the same tree,
  whatever the order, and \<^verbatim>\<open>advanced_content_extraction\<close> hands the tree back unchanged.
\<close>

theorem strategies_keep_sanitized_tree:
  "snd (reading f soup) = soup \<and>
   (nothing_to_remove soup \<longrightarrow>
      snd (extract_by_length_heuristics soup) = soup \<and>
      snd (advanced_content_extraction rd soup) = soup \<and>
      strategy_results (extraction_strategies rd) soup =
        map (\<lambda>strategy. fst (strategy soup)) (extraction_strategies rd)) \<and>
   nothing_to_remove (sanitize parsed)"
proof (intro conjI impI)
  show "snd (reading f soup) = soup" by (simp add: reading_def)
  show "nothing_to_remove (sanitize parsed)" by (rule sanitize_nothing_to_remove)
next
  assume n: "nothing_to_remove soup"
  then show "snd (extract_by_length_heuristics soup) = soup" by (rule length_heuristics_keeps)
  note k = strategy_results_keeping [OF extraction_strategies_keep [OF n, of rd], of "([], 0, None)"]
  from k show "strategy_results (extraction_strategies rd) soup =
        map (\<lambda>strategy. fst (strategy soup)) (extraction_strategies rd)" by blast
  from k show "snd (advanced_content_extraction rd soup) = soup"
    by (auto simp: advanced_content_extraction_def run_strategies_def split: prod.split)
qed

theorem strategies_keep_sanitized_tree_witness:
  "sanitize nav_document =
     Elem (str ''[document]'') [] [Elem (str ''div'') [] [Decomposed, Text (str ''body'')]] \<and>
   snd (extract_by_length_heuristics (sanitize nav_document)) = sanitize nav_document \<and>
   snd (advanced_content_extraction example_readers (sanitize nav_document)) = sanitize nav_document"
proof -
  have s: "sanitize nav_document =
     Elem (str ''[document]'') [] [Elem (str ''div'') [] [Decomposed, Text (str ''body'')]]"
    by (simp add: sanitize_purge unwanted_selectors_def nav_document_def classes_of_def str_def)
  from strategies_keep_sanitized_tree [of _ "sanitize nav_document" example_readers nav_document]
  have "snd (extract_by_length_heuristics (sanitize nav_document)) = sanitize nav_document"
    and "snd (advanced_content_extraction example_readers (sanitize nav_document)) =
           sanitize nav_document"
    by blast+
  with s show ?thesis by simp
qed

section \<open>Substitution\<close>

lemma sublist_single: "sublist [c] s \<longleftrightarrow> c \<in> set s"
  by (induction s) (auto simp: sublist_Cons_right)

lemma sublist_append_disjoint:
  assumes "sublist pat (xs @ ys)" "pat \<noteq> []" "set pat \<inter> set xs = {}"
  shows "sublist pat ys"
  using assms
proof (induction xs)
  case Nil
  then show ?case by simp
next
  case (Cons x xs)
  from Cons.prems have "\<not> prefix pat (x # xs @ ys)"
    by (cases pat) auto
  with Cons show ?case by (auto simp: sublist_Cons_right)
qed

lemma re_sub_match:
  "m (c # cs) = Some (Suc n) \<Longrightarrow> re_sub m repl (c # cs) = repl @ re_sub m repl (drop n cs)"
  by simp

lemma re_sub_skip:
  "\<forall>n. m (c # cs) \<noteq> Some (Suc n) \<Longrightarrow> re_sub m repl (c # cs) = c # re_sub m repl cs"
  by (auto split: option.split nat.split)

lemma re_sub_induct [case_names Nil Match Skip]:
  assumes "P []"
    and "\<And>c cs n. m (c # cs) = Some (Suc n) \<Longrightarrow> P (drop n cs) \<Longrightarrow> P (c # cs)"
    and "\<And>c cs. \<forall>n. m (c # cs) \<noteq> Some (Suc n) \<Longrightarrow> P cs \<Longrightarrow> P (c # cs)"
  shows "P s"
proof (induction s rule: length_induct)
  case (1 s)
  show ?case
  proof (cases s)
    case Nil
    with assms(1) show ?thesis by simp
  next
    case (Cons c cs)
    show ?thesis
    proof (cases "\<exists>n. m (c # cs) = Some (Suc n)")
      case True
      then obtain n where n: "m (c # cs) = Some (Suc n)" by blast
      have "P (drop n cs)" using 1 Cons by simp
      with n assms(2) Cons show ?thesis by blast
    next
      case False
      have "P cs" using 1 Cons by simp
      with False assms(3) Cons show ?thesis by blast
    qed
  qed
qed

lemmas re_sub_simps = re_sub_match re_sub_skip

declare re_sub.simps(2) [simp del]

lemma re_sub_prefix:
  assumes "repl \<noteq> []"
  shows "set q \<inter> set repl = {} \<Longrightarrow> prefix q (re_sub m repl s) \<Longrightarrow> prefix q s"
proof (induction s arbitrary: q rule: re_sub_induct [where m = m])
  case Nil
  then show ?case by simp
next
  case (Match c cs n)
  then have "prefix q (repl @ re_sub m repl (drop n cs))" by (simp add: re_sub_match)
  moreover from assms obtain r rs where "repl = r # rs" by (cases repl) auto
  ultimately have "q = []" using Match.prems(1) by (cases q) auto
  then show ?case by simp
next
  case (Skip c cs)
  show ?case
  proof (cases q)
    case Nil
    then show ?thesis by simp
  next
    case (Cons x q')
    with Skip.prems Skip.hyps have "x = c" "prefix q' (re_sub m repl cs)" "set q' \<inter> set repl = {}"
      by (auto simp: re_sub_skip)
    with Skip.IH [of q'] Cons show ?thesis by simp
  qed
qed

text \<open>A pattern that shares no character with the replacement is not created.\<close>

lemma re_sub_sublist:
  assumes "repl \<noteq> []" "pat \<noteq> []" "set pat \<inter> set repl = {}"
  shows "sublist pat (re_sub m repl s) \<Longrightarrow> sublist pat s"
proof (induction s rule: re_sub_induct [where m = m])
  case Nil
  then show ?case by simp
next
  case (Match c cs n)
  then have "sublist pat (repl @ re_sub m repl (drop n cs))" by (simp add: re_sub_match)
  then have "sublist pat (re_sub m repl (drop n cs))"
    using assms(2,3) by (rule sublist_append_disjoint)
  then have "sublist pat (drop n cs)" by (rule Match.IH)
  moreover have "sublist (drop n cs) (c # cs)"
    using suffix_drop [of n cs] by (intro suffix_imp_sublist suffix_ConsI)
  ultimately show ?case by (rule sublist_order.order_trans)
next
  case (Skip c cs)
  then have "sublist pat (c # re_sub m repl cs)" by (simp add: re_sub_skip)
  then consider "prefix pat (re_sub m repl (c # cs))" | "sublist pat (re_sub m repl cs)"
    using Skip.hyps by (auto simp: sublist_Cons_right re_sub_skip)
  then show ?case
  proof cases
    case 1
    then have "prefix pat (c # cs)" using assms(1,3) re_sub_prefix by blast
    then show ?thesis by (rule prefix_imp_sublist)
  next
    case 2
    then have "sublist pat cs" by (rule Skip.IH)
    then show ?thesis by (simp add: sublist_Cons_right)
  qed
qed

text \<open>A character that always starts a match and is not in the replacement is gone.\<close>

lemma re_sub_removes:
  assumes "c \<notin> set repl" "\<And>cs. \<exists>n. m (c # cs) = Some (Suc n)"
  shows "c \<notin> set (re_sub m repl s)"
proof (induction s rule: re_sub_induct [where m = m])
  case Nil
  then show ?case by simp
next
  case (Match x xs n)
  with assms(1) show ?case by (simp add: re_sub_match)
next
  case (Skip x xs)
  with assms(2) [of xs] have "x \<noteq> c" by auto
  with Skip show ?case by (simp add: re_sub_skip)
qed

text \<open>Where every match is replaced by itself, nothing changes.\<close>

lemma re_sub_id:
  assumes "\<And>zs n. suffix zs s \<Longrightarrow> m zs = Some (Suc n) \<Longrightarrow> take (Suc n) zs = repl"
  shows "re_sub m repl s = s"
  using assms
proof (induction s rule: re_sub_induct [where m = m])
  case Nil
  then show ?case by simp
next
  case (Match c cs n)
  have "take (Suc n) (c # cs) = repl" using Match.prems Match.hyps by blast
  moreover have "re_sub m repl (drop n cs) = drop n cs"
  proof (rule Match.IH)
    fix zs k
    assume z: "suffix zs (drop n cs)" and k: "m zs = Some (Suc k)"
    have "suffix (drop n cs) (c # cs)" using suffix_drop [of n cs] by (rule suffix_ConsI)
    with z have "suffix zs (c # cs)" by (rule suffix_order.order_trans)
    then show "take (Suc k) zs = repl" using k by (rule Match.prems)
  qed
  ultimately have "re_sub m repl (c # cs) = take (Suc n) (c # cs) @ drop (Suc n) (c # cs)"
    using Match.hyps by (simp add: re_sub_match)
  then show ?case by (simp only: append_take_drop_id)
next
  case (Skip c cs)
  have "re_sub m repl cs = cs"
  proof (rule Skip.IH)
    fix zs k
    assume z: "suffix zs cs" and k: "m zs = Some (Suc k)"
    from z have "suffix zs (c # cs)" by (rule suffix_ConsI)
    then show "take (Suc k) zs = repl" using k by (rule Skip.prems)
  qed
  with Skip.hyps show ?case by (simp add: re_sub_skip)
qed

section \<open>Runs of one character\<close>

lemma m_run_Some: "m_run c k s = Some n \<longleftrightarrow> n = length (takeWhile (\<lambda>x. x = c) s) \<and> k \<le> n"
  by (auto simp: m_run_def Let_def)

lemma takeWhile_eq_replicate: "takeWhile (\<lambda>x. x = c) s = replicate (length (takeWhile (\<lambda>x. x = c) s)) c"
  by (induction s) auto

lemma takeWhile_dropWhile_same: "takeWhile P (dropWhile P xs) = []"
  by (induction xs) auto

lemma takeWhile_replicate_append:
  "takeWhile (\<lambda>x. x = c) (replicate n c @ ys) = replicate n c @ takeWhile (\<lambda>x. x = c) ys"
  by (induction n) auto

lemma run_short_kept:
  assumes "1 \<le> k"
  shows "length (takeWhile (\<lambda>x. x = c) s) < k \<Longrightarrow>
     length (takeWhile (\<lambda>x. x = c) (re_sub (m_run c k) repl s)) = length (takeWhile (\<lambda>x. x = c) s)"
proof (induction s)
  case Nil
  then show ?case by simp
next
  case (Cons x xs)
  have skip: "\<forall>n. m_run c k (x # xs) \<noteq> Some (Suc n)"
    using Cons.prems by (auto simp: m_run_Some)
  show ?case
  proof (cases "x = c")
    case True
    with Cons skip show ?thesis by (simp add: re_sub_skip)
  next
    case False
    with skip show ?thesis by (simp add: re_sub_skip)
  qed
qed

lemma suffix_replicate_append:
  assumes "suffix zs (replicate j c @ ys)"
  shows "suffix zs ys \<or> (\<exists>i \<le> j. zs = replicate i c @ ys)"
  using assms
proof (induction j)
  case 0
  then show ?case by simp
next
  case (Suc j)
  then have "zs = c # replicate j c @ ys \<or> suffix zs (replicate j c @ ys)"
    by (simp add: suffix_Cons)
  then show ?case
  proof
    assume "zs = c # replicate j c @ ys"
    then have "zs = replicate (Suc j) c @ ys" by simp
    then show ?thesis by blast
  next
    assume "suffix zs (replicate j c @ ys)"
    with Suc.IH show ?thesis by (auto intro: le_SucI)
  qed
qed

text \<open>After capping the runs of a character, no run is longer than the cap.\<close>

lemma run_capped:
  assumes "1 \<le> k" "j \<le> N" "k \<le> Suc N"
  shows "suffix zs (re_sub (m_run c k) (replicate j c) s) \<Longrightarrow>
     length (takeWhile (\<lambda>x. x = c) zs) \<le> N"
proof (induction s arbitrary: zs rule: re_sub_induct [where m = "m_run c k"])
  case Nil
  then show ?case by simp
next
  case (Match x xs n)
  let ?rest = "drop n xs"
  let ?out = "re_sub (m_run c k) (replicate j c) ?rest"
  from Match.hyps have n: "Suc n = length (takeWhile (\<lambda>x. x = c) (x # xs))"
    by (simp add: m_run_Some)
  then have "drop (Suc n) (x # xs) = dropWhile (\<lambda>x. x = c) (x # xs)"
    by (metis dropWhile_eq_drop)
  then have rest: "?rest = dropWhile (\<lambda>x. x = c) (x # xs)" by simp
  have z0: "length (takeWhile (\<lambda>x. x = c) ?rest) = 0"
    unfolding rest by (simp only: takeWhile_dropWhile_same list.size)
  then have "length (takeWhile (\<lambda>x. x = c) ?rest) < k" using assms(1) by linarith
  from run_short_kept [OF assms(1) this, of "replicate j c"]
  have z: "length (takeWhile (\<lambda>x. x = c) ?out) = 0" by (simp only: z0)
  from Match.prems Match.hyps have "suffix zs (replicate j c @ ?out)" by (simp add: re_sub_match)
  from suffix_replicate_append [OF this]
  consider "suffix zs ?out" | i where "i \<le> j" "zs = replicate i c @ ?out"
    by blast
  then show ?case
  proof cases
    case 1
    then show ?thesis by (rule Match.IH)
  next
    case 2
    have "takeWhile (\<lambda>x. x = c) zs = replicate i c @ takeWhile (\<lambda>x. x = c) ?out"
      unfolding 2(2) by (rule takeWhile_replicate_append)
    with z 2(1) assms(2) show ?thesis by simp
  qed
next
  case (Skip x xs)
  have short: "length (takeWhile (\<lambda>x. x = c) (x # xs)) < k"
  proof (rule ccontr)
    assume "\<not> length (takeWhile (\<lambda>x. x = c) (x # xs)) < k"
    then have "m_run c k (x # xs) = Some (length (takeWhile (\<lambda>x. x = c) (x # xs)))"
      and "0 < length (takeWhile (\<lambda>x. x = c) (x # xs))"
      using assms(1) by (simp_all add: m_run_Some del: takeWhile.simps length_greater_0_conv)
    with Skip.hyps show False by (metis gr0_conv_Suc)
  qed
  have out: "re_sub (m_run c k) (replicate j c) (x # xs) =
      x # re_sub (m_run c k) (replicate j c) xs"
    using Skip.hyps by (rule re_sub_skip)
  from Skip.prems have "suffix zs (x # re_sub (m_run c k) (replicate j c) xs)"
    by (simp only: out)
  then consider "zs = re_sub (m_run c k) (replicate j c) (x # xs)"
    | "suffix zs (re_sub (m_run c k) (replicate j c) xs)"
    unfolding out by (auto simp: suffix_Cons)
  then show ?case
  proof cases
    case 1
    with run_short_kept [OF assms(1) short, of "replicate j c"] short assms(3) show ?thesis by simp
  next
    case 2
    then show ?thesis by (rule Skip.IH)
  qed
qed

lemma run_capped_sublist:
  assumes "1 \<le> k" "j \<le> N" "k \<le> Suc N"
  shows "\<not> sublist (replicate (Suc N) c) (re_sub (m_run c k) (replicate j c) s)"
proof
  assume "sublist (replicate (Suc N) c) (re_sub (m_run c k) (replicate j c) s)"
  then obtain zs where zs: "suffix zs (re_sub (m_run c k) (replicate j c) s)"
    "prefix (replicate (Suc N) c) zs" by (auto simp: sublist_altdef')
  then obtain ys where "zs = replicate (Suc N) c @ ys" by (auto simp: prefix_def)
  then have "Suc N \<le> length (takeWhile (\<lambda>x. x = c) zs)"
    by (simp only: takeWhile_replicate_append length_append length_replicate)
  with run_capped [OF assms zs(1)] show False by simp
qed

section \<open>The normalizer\<close>

lemma enhanced_text_cleaning_stages:
  "enhanced_text_cleaning t = line_stage (regex_stage t)"
proof (cases "t = []")
  case True
  then show ?thesis
    by (simp add: enhanced_text_cleaning_def line_stage_def regex_stage_def strip_def)
next
  case False
  then show ?thesis
    by (simp add: enhanced_text_cleaning_def line_stage_def regex_stage_def Let_def)
qed

lemma m_line_ending_CR: "\<exists>n. m_line_ending (CR # cs) = Some (Suc n)"
  by (cases cs) auto

lemma m_char_TAB: "\<exists>n. m_char TAB (TAB # cs) = Some (Suc n)"
  by simp

lemma regex_stage_avoids:
  assumes "pat \<in> set forbidden"
  shows "\<not> sublist pat (regex_stage t)"
proof -
  let ?t1 = "re_sub m_line_ending [NL] t"
  let ?t2 = "re_sub (m_char TAB) [SP] ?t1"
  let ?t3 = "re_sub (m_run SP 2) [SP] ?t2"
  let ?t4 = "re_sub m_newlines [NL, NL] ?t3"
  let ?t5 = "re_sub m_newline_spaces [NL] ?t4"
  let ?t6 = "re_sub (m_run 33 3) [33, 33, 33] ?t5"
  let ?t7 = "re_sub (m_run 63 3) [63, 63, 63] ?t6"
  let ?t8 = "re_sub (m_run 46 4) [46, 46, 46] ?t7"
  have r: "regex_stage t = ?t8" by (simp add: regex_stage_def)
  have keep: "\<not> sublist pat s \<Longrightarrow> \<not> sublist pat (re_sub m repl s)"
    if "repl \<noteq> []" "pat \<noteq> []" "set pat \<inter> set repl = {}" for pat repl m and s :: pstr
    using re_sub_sublist [OF that] by blast
  have cr: "\<not> sublist [CR] ?t1"
    using re_sub_removes [of CR "[NL]" m_line_ending t] m_line_ending_CR
    by (simp add: sublist_single)
  have tab: "\<not> sublist [TAB] ?t2"
    using re_sub_removes [of TAB "[SP]" "m_char TAB" ?t1] m_char_TAB
    by (simp add: sublist_single)
  have sp: "\<not> sublist [SP, SP] ?t3"
    using run_capped_sublist [of 2 1 1 SP ?t2] by (simp add: numeral_2_eq_2)
  have bang: "\<not> sublist (replicate 4 33) ?t6"
    using run_capped_sublist [of 3 3 3 33 ?t5] by (simp add: numeral_3_eq_3 eval_nat_numeral)
  have quest: "\<not> sublist (replicate 4 63) ?t7"
    using run_capped_sublist [of 3 3 3 63 ?t6] by (simp add: numeral_3_eq_3 eval_nat_numeral)
  have dots: "\<not> sublist (replicate 4 46) ?t8"
    using run_capped_sublist [of 4 3 3 46 ?t7] by (simp add: numeral_3_eq_3 eval_nat_numeral)
  from assms consider "pat = [CR]" | "pat = [TAB]" | "pat = [SP, SP]" | "pat = replicate 4 33"
    | "pat = replicate 4 63" | "pat = replicate 4 46"
    by (auto simp: forbidden_def)
  then show ?thesis
  proof cases
    case 1
    have "\<not> sublist [CR] ?t8"
      by (intro keep cr) simp_all
    with 1 r show ?thesis by simp
  next
    case 2
    have "\<not> sublist [TAB] ?t8"
      by (intro keep tab) simp_all
    with 2 r show ?thesis by simp
  next
    case 3
    have "\<not> sublist [SP, SP] ?t8"
      by (intro keep sp) simp_all
    with 3 r show ?thesis by simp
  next
    case 4
    have "\<not> sublist (replicate 4 33) ?t8"
      by (intro keep bang) (simp_all add: eval_nat_numeral)
    with 4 r show ?thesis by simp
  next
    case 5
    have "\<not> sublist (replicate 4 63) ?t8"
      by (intro keep quest) (simp_all add: eval_nat_numeral)
    with 5 r show ?thesis by simp
  next
    case 6
    with dots r show ?thesis by simp
  qed
qed

subsection \<open>Lines\<close>

lemma join_Cons: "ls \<noteq> [] \<Longrightarrow> join sep (l # ls) = l @ sep @ join sep ls"
  by (cases ls) simp_all

lemma split_nl_not_Nil: "split_nl s \<noteq> []"
  by (induction s) auto

lemma split_nl_no_newline: "l \<in> set (split_nl s) \<Longrightarrow> NL \<notin> set l"
proof (induction s arbitrary: l)
  case Nil
  then show ?case by simp
next
  case (Cons c cs)
  obtain h t where ht: "split_nl cs = h # t" using split_nl_not_Nil [of cs] by (cases "split_nl cs") auto
  show ?case
  proof (cases "c = NL")
    case True
    with Cons show ?thesis by auto
  next
    case False
    with Cons.prems ht have "l = c # h \<or> l \<in> set t" by simp
    moreover have "NL \<notin> set h" "\<And>l. l \<in> set t \<Longrightarrow> NL \<notin> set l"
      using Cons.IH ht by simp_all
    ultimately show ?thesis using False by auto
  qed
qed

lemma join_split_nl: "join [NL] (split_nl s) = s"
proof (induction s)
  case Nil
  then show ?case by simp
next
  case (Cons c cs)
  obtain h t where ht: "split_nl cs = h # t" using split_nl_not_Nil [of cs] by (cases "split_nl cs") auto
  show ?case
  proof (cases "c = NL")
    case True
    with Cons ht show ?thesis by (simp add: join_Cons)
  next
    case False
    with Cons ht show ?thesis by (cases t) simp_all
  qed
qed

lemma split_nl_line: "NL \<notin> set l \<Longrightarrow> split_nl (l @ NL # s) = l # split_nl s"
  by (induction l) auto

lemma split_nl_single: "NL \<notin> set l \<Longrightarrow> split_nl l = [l]"
  by (induction l) auto

lemma split_nl_join:
  "ls \<noteq> [] \<Longrightarrow> \<forall>l \<in> set ls. NL \<notin> set l \<Longrightarrow> split_nl (join [NL] ls) = ls"
proof (induction ls)
  case Nil
  then show ?case by simp
next
  case (Cons l ls)
  show ?case
  proof (cases "ls = []")
    case True
    with Cons.prems show ?thesis by (simp add: split_nl_single)
  next
    case False
    with Cons show ?thesis by (simp add: join_Cons split_nl_line)
  qed
qed

lemma line_sublist_join: "l \<in> set ls \<Longrightarrow> sublist l (join sep ls)"
proof (induction ls)
  case Nil
  then show ?case by simp
next
  case (Cons x ls)
  show ?case
  proof (cases "ls = []")
    case True
    with Cons.prems show ?thesis by simp
  next
    case False
    then have j: "join sep (x # ls) = x @ sep @ join sep ls" by (rule join_Cons)
    show ?thesis
    proof (cases "l = x")
      case True
      then show ?thesis unfolding j by simp
    next
      case False
      with Cons have "sublist l (join sep ls)" by simp
      then have "sublist l ((x @ sep) @ join sep ls)"
        by (meson sublist_append_leftI sublist_order.order_trans)
      then show ?thesis unfolding j by simp
    qed
  qed
qed

text \<open>A pattern without a newline that occurs in the joined lines occurs in one line.\<close>

lemma sublist_join_line:
  assumes "pat \<noteq> []" "NL \<notin> set pat"
  shows "sublist pat (join [NL] ls) \<Longrightarrow> \<exists>l \<in> set ls. sublist pat l"
proof (induction ls)
  case Nil
  with assms(1) show ?case by simp
next
  case (Cons x ls)
  show ?case
  proof (cases "ls = []")
    case True
    with Cons.prems show ?thesis by simp
  next
    case False
    then have j: "join [NL] (x # ls) = x @ NL # join [NL] ls" by (simp add: join_Cons)
    from Cons.prems have "sublist pat (x @ NL # join [NL] ls)" unfolding j .
    then consider "sublist pat x" | "sublist pat (NL # join [NL] ls)"
      | xs1 xs2 where "pat = xs1 @ xs2" "suffix xs1 x" "prefix xs2 (NL # join [NL] ls)"
      unfolding sublist_append by blast
    then show ?thesis
    proof cases
      case 1
      then show ?thesis by auto
    next
      case 2
      moreover have "\<not> prefix pat (NL # join [NL] ls)"
        using assms by (cases pat) auto
      ultimately have "sublist pat (join [NL] ls)" by (simp add: sublist_Cons_right)
      with Cons.IH show ?thesis by auto
    next
      case 3
      have "xs2 = []"
      proof (cases xs2)
        case (Cons y ys)
        with 3(3) have "y = NL" by simp
        with Cons 3(1) assms(2) show ?thesis by simp
      qed simp
      with 3 have "suffix pat x" by simp
      then show ?thesis by auto
    qed
  qed
qed

subsection \<open>Stripping\<close>

lemma hd_dropWhile_not: "dropWhile P xs \<noteq> [] \<Longrightarrow> \<not> P (hd (dropWhile P xs))"
  by (induction xs) auto

lemma dropWhile_hd: "xs \<noteq> [] \<Longrightarrow> \<not> P (hd xs) \<Longrightarrow> dropWhile P xs = xs"
  by (cases xs) simp_all

lemma stripped_strip: "stripped (strip s)"
proof (cases "strip s = []")
  case True
  then show ?thesis by (simp add: stripped_def)
next
  case False
  let ?d = "dropWhile is_space s"
  let ?e = "dropWhile is_space (rev ?d)"
  have e: "?e \<noteq> []" using False by (simp add: strip_def)
  have d: "?d \<noteq> []"
  proof
    assume a: "?d = []"
    have "?e = []" unfolding a by simp
    with e show False by simp
  qed
  have "last (strip s) = hd ?e" using e by (simp add: strip_def last_rev)
  then have 1: "\<not> is_space (last (strip s))" using hd_dropWhile_not [OF e] by simp
  have "suffix ?e (rev ?d)" by (rule suffix_dropWhile)
  then obtain ps where "rev ?d = ps @ ?e" by (auto simp: suffix_def)
  then have "?d = rev ?e @ rev ps" by (metis rev_append rev_rev_ident)
  then have "hd ?d = hd (rev ?e)" using e by (metis hd_append2 rev_is_Nil_conv)
  then have "hd (strip s) = hd ?d" by (simp add: strip_def)
  then have 2: "\<not> is_space (hd (strip s))" using hd_dropWhile_not [OF d] by simp
  from 1 2 show ?thesis by (simp add: stripped_def)
qed

lemma strip_stripped: "stripped l \<Longrightarrow> strip l = l"
proof (cases "l = []")
  case True
  then show ?thesis by (simp add: strip_def)
next
  case False
  assume "stripped l"
  with False have h: "\<not> is_space (hd l)" and t: "\<not> is_space (last l)"
    by (simp_all add: stripped_def)
  have 1: "dropWhile is_space l = l" using False h by (rule dropWhile_hd)
  have "hd (rev l) = last l" using False by (simp add: hd_rev)
  with t have "\<not> is_space (hd (rev l))" by simp
  moreover have "rev l \<noteq> []" using False by simp
  ultimately have 2: "dropWhile is_space (rev l) = rev l" by (intro dropWhile_hd)
  show ?thesis by (simp add: strip_def 1 2)
qed

lemma set_strip: "set (strip s) \<subseteq> set s"
  using sublist_strip by (rule set_mono_sublist)

subsection \<open>The two loops over the lines\<close>

lemma keep_lines_filter:
  "keep_lines ls = filter (\<lambda>l. l = [] \<or> 5 < length l) (map strip ls)"
  by (induction ls) (simp_all add: Let_def)

lemma set_limit_empty: "set (limit_empty ec ls) \<subseteq> set ls"
  by (induction ec ls rule: limit_empty.induct) auto

lemma sublist_pair_Cons:
  "sublist [a, b] (x # xs) \<longleftrightarrow> (x = a \<and> xs \<noteq> [] \<and> hd xs = b) \<or> sublist [a, b] xs"
  by (cases xs) (auto simp: sublist_Cons_right)

lemma limit_empty_tidy:
  "\<not> sublist [[], []] (limit_empty ec ls) \<and>
   (0 < ec \<longrightarrow> limit_empty ec ls = [] \<or> hd (limit_empty ec ls) \<noteq> [])"
proof (induction ec ls rule: limit_empty.induct)
  case (1 ec)
  then show ?case by simp
next
  case (2 ec line lines)
  show ?case
  proof (cases "line = []")
    case False
    with 2 show ?thesis by (simp add: sublist_pair_Cons)
  next
    case True
    show ?thesis
    proof (cases "ec = 0")
      case True
      with \<open>line = []\<close> 2 show ?thesis by (simp add: sublist_pair_Cons)
    next
      case False
      with \<open>line = []\<close> 2 show ?thesis by simp
    qed
  qed
qed

lemma limit_empty_id:
  "\<not> sublist [[], []] ls \<Longrightarrow> (0 < ec \<longrightarrow> ls = [] \<or> hd ls \<noteq> []) \<Longrightarrow> limit_empty ec ls = ls"
proof (induction ec ls rule: limit_empty.induct)
  case (1 ec)
  then show ?case by simp
next
  case (2 ec line lines)
  from "2.prems"(1) have n: "\<not> sublist [[], []] lines"
    and h: "line = [] \<longrightarrow> lines = [] \<or> hd lines \<noteq> []"
    by (auto simp: sublist_pair_Cons)
  show ?case
  proof (cases "line = []")
    case False
    with 2 n show ?thesis by simp
  next
    case True
    with "2.prems"(2) have ec: "ec = 0" by simp
    with True 2 n h show ?thesis by simp
  qed
qed

subsection \<open>Stripping the joined lines\<close>

lemma join_snoc: "ls \<noteq> [] \<Longrightarrow> join sep (ls @ [l]) = join sep ls @ sep @ l"
proof (induction ls)
  case Nil
  then show ?case by simp
next
  case (Cons x ls)
  show ?case
  proof (cases "ls = []")
    case True
    then show ?thesis by simp
  next
    case False
    with Cons show ?thesis by (simp add: join_Cons)
  qed
qed

lemma rev_join: "rev (join [NL] ls) = join [NL] (rev (map rev ls))"
proof (induction ls)
  case Nil
  then show ?case by simp
next
  case (Cons x ls)
  show ?case
  proof (cases "ls = []")
    case True
    then show ?thesis by simp
  next
    case False
    with Cons show ?thesis by (simp add: join_Cons join_snoc)
  qed
qed

lemma dropWhile_space_join:
  "\<forall>l \<in> set ls. stripped l \<Longrightarrow>
   dropWhile is_space (join [NL] ls) = join [NL] (dropWhile (\<lambda>l. l = []) ls)"
proof (induction ls)
  case Nil
  then show ?case by simp
next
  case (Cons x ls)
  have nl: "is_space NL" by (simp add: is_space_def)
  show ?case
  proof (cases "x = []")
    case True
    show ?thesis
    proof (cases "ls = []")
      case True
      with \<open>x = []\<close> show ?thesis by simp
    next
      case False
      with \<open>x = []\<close> Cons nl show ?thesis by (simp add: join_Cons)
    qed
  next
    case False
    with Cons.prems have h: "\<not> is_space (hd x)" by (simp add: stripped_def)
    have "join [NL] (x # ls) \<noteq> []" "hd (join [NL] (x # ls)) = hd x"
      using False by (cases "ls = []"; simp add: join_Cons)+
    with h have "dropWhile is_space (join [NL] (x # ls)) = join [NL] (x # ls)"
      by (intro dropWhile_hd) simp_all
    with False show ?thesis by simp
  qed
qed

lemma stripped_rev: "stripped (rev l) = stripped l"
  by (cases "l = []") (auto simp: stripped_def hd_rev last_rev)

lemma strip_join:
  assumes "\<forall>l \<in> set ls. stripped l"
  shows "strip (join [NL] ls) = join [NL] (trim_empty ls)"
proof -
  let ?e = "\<lambda>l :: pstr. l = []"
  let ?ls1 = "dropWhile ?e ls"
  have s1: "\<forall>l \<in> set (rev (map rev ?ls1)). stripped l"
    using assms by (auto simp: stripped_rev dest: set_dropWhileD)
  have "dropWhile ?e (rev (map rev ?ls1)) = map rev (dropWhile ?e (rev ?ls1))"
    by (simp add: rev_map dropWhile_map comp_def)
  then have "rev (map rev (dropWhile ?e (rev (map rev ?ls1)))) = rev (dropWhile ?e (rev ?ls1))"
    by (simp add: rev_map [symmetric] comp_def)
  then show ?thesis
    unfolding strip_def trim_empty_def dropWhile_space_join [OF assms] rev_join
      dropWhile_space_join [OF s1]
    by simp
qed

subsection \<open>What the line stage returns\<close>

lemma set_trim_empty: "set (trim_empty ls) \<subseteq> set ls"
  unfolding trim_empty_def by (auto dest!: set_dropWhileD)

lemma sublist_trim_empty: "sublist (trim_empty ls) ls"
proof -
  have "prefix (trim_empty ls) (dropWhile (\<lambda>l. l = []) ls)"
    unfolding trim_empty_def by (rule prefix_rev_dropWhile_rev)
  then have "sublist (trim_empty ls) (dropWhile (\<lambda>l. l = []) ls)" by (rule prefix_imp_sublist)
  moreover have "sublist (dropWhile (\<lambda>l. l = []) ls) ls"
    using suffix_dropWhile by (rule suffix_imp_sublist)
  ultimately show ?thesis by (rule sublist_order.order_trans)
qed

lemma trim_empty_ends:
  assumes "trim_empty ls \<noteq> []"
  shows "hd (trim_empty ls) \<noteq> []" and "last (trim_empty ls) \<noteq> []"
proof -
  let ?e = "\<lambda>l :: pstr. l = []"
  let ?ls1 = "dropWhile ?e ls"
  let ?x = "dropWhile ?e (rev ?ls1)"
  have x: "?x \<noteq> []" using assms by (simp add: trim_empty_def)
  have ls1: "?ls1 \<noteq> []"
  proof
    assume a: "?ls1 = []"
    have "?x = []" unfolding a by simp
    with x show False by simp
  qed
  have "last (trim_empty ls) = hd ?x" using x by (simp add: trim_empty_def last_rev)
  with hd_dropWhile_not [OF x] show "last (trim_empty ls) \<noteq> []" by simp
  have "suffix ?x (rev ?ls1)" by (rule suffix_dropWhile)
  then obtain ps where ps: "rev ?ls1 = ps @ ?x" by (auto simp: suffix_def)
  have "last (rev ?ls1) = last ?x" using ps x by (metis last_appendR)
  then have "hd (trim_empty ls) = hd ?ls1" using x ls1 by (simp add: trim_empty_def hd_rev last_rev)
  with hd_dropWhile_not [OF ls1] show "hd (trim_empty ls) \<noteq> []" by simp
qed

lemma kept_line:
  assumes "l \<in> set (limit_empty ec (keep_lines (split_nl t)))"
  shows "NL \<notin> set l \<and> stripped l \<and> (l = [] \<or> 5 < length l) \<and>
         (\<exists>l0 \<in> set (split_nl t). l = strip l0)"
proof -
  from assms set_limit_empty have "l \<in> set (keep_lines (split_nl t))" by blast
  then obtain l0 where l0: "l0 \<in> set (split_nl t)" "l = strip l0" "l = [] \<or> 5 < length l"
    by (auto simp: keep_lines_filter)
  have "NL \<notin> set l0" using l0(1) by (rule split_nl_no_newline)
  with set_strip [of l0] l0(2) have "NL \<notin> set l" by blast
  with l0 stripped_strip [of l0] show ?thesis by blast
qed

lemma line_stage_tidy:
  "\<exists>ls. line_stage t = join [NL] ls \<and> tidy ls \<and> (ls = [] \<or> hd ls \<noteq> [])"
proof -
  let ?rl = "limit_empty 0 (keep_lines (split_nl t))"
  let ?ls = "trim_empty ?rl"
  have lines: "NL \<notin> set l \<and> stripped l \<and> (l = [] \<or> 5 < length l)" if "l \<in> set ?rl" for l
    using kept_line [OF that] by blast
  then have "\<forall>l \<in> set ?rl. stripped l" by blast
  then have 1: "line_stage t = join [NL] ?ls" unfolding line_stage_def by (rule strip_join)
  have 2: "\<forall>l \<in> set ?ls. NL \<notin> set l \<and> stripped l \<and> (l = [] \<or> 5 < length l)"
    using lines set_trim_empty [of ?rl] by blast
  have "\<not> sublist [[], []] ?rl" using limit_empty_tidy [of 0] by blast
  then have 3: "\<not> sublist [[], []] ?ls"
    using sublist_trim_empty [of ?rl] sublist_order.order_trans by blast
  have 4: "?ls = [] \<or> (hd ?ls \<noteq> [] \<and> last ?ls \<noteq> [])"
    using trim_empty_ends [of ?rl] by blast
  from 2 3 4 have "tidy ?ls \<and> (?ls = [] \<or> hd ?ls \<noteq> [])" unfolding tidy_def by blast
  with 1 show ?thesis by blast
qed

lemma line_stage_join:
  assumes "tidy ls" "ls = [] \<or> hd ls \<noteq> []"
  shows "line_stage (join [NL] ls) = join [NL] ls"
proof (cases "ls = []")
  case True
  then show ?thesis by (simp add: line_stage_def strip_def)
next
  case False
  from assms(1) have lines: "\<forall>l \<in> set ls. NL \<notin> set l \<and> stripped l \<and> (l = [] \<or> 5 < length l)"
    and noadj: "\<not> sublist [[], []] ls" and last: "last ls \<noteq> []"
    using False by (simp_all add: tidy_def)
  from assms(2) False have hd: "hd ls \<noteq> []" by simp
  have 1: "split_nl (join [NL] ls) = ls" using False lines by (intro split_nl_join) blast+
  have "map strip ls = ls" using lines by (simp add: map_idI strip_stripped)
  then have 2: "keep_lines ls = ls" using lines by (simp add: keep_lines_filter filter_id_conv)
  have 3: "limit_empty 0 ls = ls" using noadj by (intro limit_empty_id) simp_all
  have "dropWhile (\<lambda>l. l = []) ls = ls" using False hd by (rule dropWhile_hd)
  moreover have "dropWhile (\<lambda>l. l = []) (rev ls) = rev ls"
    using False last by (intro dropWhile_hd) (simp_all add: hd_rev)
  ultimately have 4: "trim_empty ls = ls" by (simp add: trim_empty_def)
  have "strip (join [NL] ls) = join [NL] (trim_empty ls)" using lines by (intro strip_join) blast
  then show ?thesis by (simp add: line_stage_def 1 2 3 4)
qed

lemma line_stage_sublist:
  assumes "pat \<noteq> []" "NL \<notin> set pat" "sublist pat (line_stage t)"
  shows "sublist pat t"
proof -
  let ?rl = "limit_empty 0 (keep_lines (split_nl t))"
  have "sublist (line_stage t) (join [NL] ?rl)" unfolding line_stage_def by (rule sublist_strip)
  with assms(3) have "sublist pat (join [NL] ?rl)" by (rule sublist_order.order_trans)
  from sublist_join_line [OF assms(1,2) this] obtain l where l: "l \<in> set ?rl" "sublist pat l"
    by blast
  from kept_line [OF l(1)] obtain l0 where l0: "l0 \<in> set (split_nl t)" "l = strip l0" by blast
  have "sublist l l0" unfolding l0(2) by (rule sublist_strip)
  moreover have "sublist l0 t" using line_sublist_join [OF l0(1), of "[NL]"] by (simp add: join_split_nl)
  ultimately have "sublist l t" by (rule sublist_order.order_trans)
  with l(2) show ?thesis by (rule sublist_order.order_trans)
qed

subsection \<open>Newlines in tidy text\<close>

lemma tidy_tail: "tidy (l # ls) \<Longrightarrow> ls \<noteq> [] \<Longrightarrow> tidy ls"
  by (auto simp: tidy_def sublist_Cons_right)

lemma tidy_line: "tidy ls \<Longrightarrow> l \<in> set ls \<Longrightarrow> NL \<notin> set l \<and> stripped l"
  by (simp add: tidy_def)

lemma tidy_join_head:
  assumes "tidy ls" "ls \<noteq> []" "hd ls \<noteq> []"
  shows "join [NL] ls \<noteq> [] \<and> \<not> is_space (hd (join [NL] ls))"
proof -
  obtain l rest where ls: "ls = l # rest" using assms(2) by (cases ls) auto
  with assms(3) have l: "l \<noteq> []" by simp
  have "stripped l" using assms(1) ls by (simp add: tidy_def)
  with l have "\<not> is_space (hd l)" by (simp add: stripped_def)
  moreover have "join [NL] ls \<noteq> []" "hd (join [NL] ls) = hd l"
    unfolding ls using l by (cases "rest = []"; simp add: join_Cons)+
  ultimately show ?thesis by simp
qed

lemma tidy_second:
  assumes "tidy ([] # ls)"
  shows "ls \<noteq> [] \<and> hd ls \<noteq> [] \<and> tidy ls"
proof -
  from assms have ne: "ls \<noteq> []" by (auto simp: tidy_def)
  from assms have "\<not> sublist [[], []] ([] # ls)" by (simp add: tidy_def)
  with ne have "hd ls \<noteq> []" by (auto simp: sublist_pair_Cons)
  with ne tidy_tail [OF assms] show ?thesis by simp
qed

lemma tidy_join_spaces:
  assumes "tidy ls"
  shows "count_list (takeWhile is_space (join [NL] ls)) NL \<le> 1 \<and>
         (join [NL] ls = [] \<or> hd (join [NL] ls) \<noteq> SP)"
proof (cases "ls = [] \<or> hd ls \<noteq> []")
  case True
  show ?thesis
  proof (cases "ls = []")
    case True
    then show ?thesis by simp
  next
    case False
    with True assms have h: "join [NL] ls \<noteq> []" "\<not> is_space (hd (join [NL] ls))"
      using tidy_join_head by blast+
    then have "takeWhile is_space (join [NL] ls) = []" by (cases "join [NL] ls") simp_all
    moreover have "hd (join [NL] ls) \<noteq> SP" using h(2) by (auto simp: is_space_def)
    ultimately show ?thesis by simp
  qed
next
  case False
  then obtain rest where ls: "ls = [] # rest" by (cases ls) auto
  from tidy_second [OF assms [unfolded ls]] have r: "rest \<noteq> []" "hd rest \<noteq> []" "tidy rest"
    by simp_all
  from tidy_join_head [OF r(3) r(1) r(2)]
  have "takeWhile is_space (join [NL] rest) = []" by (cases "join [NL] rest") simp_all
  moreover have "join [NL] ls = NL # join [NL] rest" unfolding ls using r(1) by (simp add: join_Cons)
  moreover have "is_space NL" by (simp add: is_space_def)
  ultimately show ?thesis by simp
qed

lemma tidy_after_newline:
  "tidy ls \<Longrightarrow> suffix (NL # cs) (join [NL] ls) \<Longrightarrow>
   count_list (takeWhile is_space cs) NL \<le> 1 \<and> (cs = [] \<or> hd cs \<noteq> SP)"
proof (induction ls)
  case Nil
  then show ?case by simp
next
  case (Cons l ls)
  have l: "NL \<notin> set l" using Cons.prems(1) by (simp add: tidy_def)
  show ?case
  proof (cases "ls = []")
    case True
    with Cons.prems(2) have "suffix (NL # cs) l" by simp
    then have "NL \<in> set l" using set_mono_suffix by fastforce
    with l show ?thesis by simp
  next
    case False
    then have t: "tidy ls" using Cons.prems(1) tidy_tail by blast
    from False have j: "join [NL] (l # ls) = l @ NL # join [NL] ls" by (simp add: join_Cons)
    from Cons.prems(2) have "suffix (NL # cs) (l @ NL # join [NL] ls)" unfolding j .
    then consider "suffix (NL # cs) (NL # join [NL] ls)"
      | xs where "NL # cs = xs @ NL # join [NL] ls" "suffix xs l"
      unfolding suffix_append by blast
    then have "cs = join [NL] ls \<or> suffix (NL # cs) (join [NL] ls)"
    proof cases
      case 1
      then show ?thesis by (auto simp: suffix_Cons)
    next
      case 2
      show ?thesis
      proof (cases xs)
        case Nil
        with 2(1) show ?thesis by simp
      next
        case (Cons y ys)
        with 2(1) have "y = NL" by simp
        with Cons 2(2) have "NL \<in> set l" using set_mono_suffix by fastforce
        with l show ?thesis by simp
      qed
    qed
    then show ?thesis
    proof
      assume "cs = join [NL] ls"
      with tidy_join_spaces [OF t] show ?thesis by simp
    next
      assume "suffix (NL # cs) (join [NL] ls)"
      with t show ?thesis by (rule Cons.IH)
    qed
  qed
qed

lemma tidy_no_space_before_newline:
  "tidy ls \<Longrightarrow> \<not> sublist [SP, NL] (join [NL] ls)"
proof (induction ls)
  case Nil
  then show ?case by simp
next
  case (Cons l ls)
  have l: "NL \<notin> set l" "stripped l" using Cons.prems by (simp_all add: tidy_def)
  have inl: "\<not> sublist [SP, NL] l"
  proof
    assume "sublist [SP, NL] l"
    then have "NL \<in> set l" using set_mono_sublist by fastforce
    with l show False by simp
  qed
  show ?case
  proof (cases "ls = []")
    case True
    with inl show ?thesis by simp
  next
    case False
    then have t: "tidy ls" using Cons.prems tidy_tail by blast
    from False have j: "join [NL] (l # ls) = l @ NL # join [NL] ls" by (simp add: join_Cons)
    show ?thesis
    proof
      assume "sublist [SP, NL] (join [NL] (l # ls))"
      then have "sublist [SP, NL] (l @ NL # join [NL] ls)" unfolding j .
      then consider "sublist [SP, NL] l" | "sublist [SP, NL] (NL # join [NL] ls)"
        | xs1 xs2 where "[SP, NL] = xs1 @ xs2" "suffix xs1 l" "prefix xs2 (NL # join [NL] ls)"
        unfolding sublist_append by blast
      then show False
      proof cases
        case 1
        with inl show False by simp
      next
        case 2
        then have "sublist [SP, NL] (join [NL] ls)" by (simp add: sublist_Cons_right)
        with Cons.IH [OF t] show False by simp
      next
        case 3
        from 3(1) consider "xs1 = []" "xs2 = [SP, NL]" | "xs1 = [SP]" "xs2 = [NL]"
          | "xs1 = [SP, NL]" "xs2 = []"
        proof (cases xs1)
          case Nil
          with 3(1) that(1) show ?thesis by simp
        next
          case a: (Cons a r)
          show ?thesis
          proof (cases r)
            case Nil
            with a 3(1) that(2) show ?thesis by simp
          next
            case b: (Cons b r')
            with a 3(1) have "a = SP" "b = NL" "r' = []" "xs2 = []" by simp_all
            with a b that(3) show ?thesis by simp
          qed
        qed
        then show False
        proof cases
          case 1
          with 3(3) show False by simp
        next
          case 2
          with 3(2) have "l \<noteq> []" "last l = SP" by (auto simp: suffix_def)
          with l(2) show False by (simp add: stripped_def is_space_def)
        next
          case 3
          with \<open>suffix xs1 l\<close> have "NL \<in> set l" using set_mono_suffix by fastforce
          with l show False by simp
        qed
      qed
    qed
  qed
qed

subsection \<open>The substitutions leave a normalized text alone\<close>

lemma run_prefix:
  assumes "m_run c k zs = Some n"
  shows "prefix (replicate n c) zs" and "take n zs = replicate n c"
proof -
  from assms have n: "n = length (takeWhile (\<lambda>x. x = c) zs)" by (simp add: m_run_Some)
  have "zs = takeWhile (\<lambda>x. x = c) zs @ dropWhile (\<lambda>x. x = c) zs" by simp
  then have z: "zs = replicate n c @ dropWhile (\<lambda>x. x = c) zs"
    using takeWhile_eq_replicate [of c zs] n by simp
  then show "prefix (replicate n c) zs" by (metis prefixI)
  from z show "take n zs = replicate n c" by (metis append_eq_conv_conj length_replicate)
qed

lemma no_long_run:
  assumes "\<not> sublist (replicate (Suc N) c) s" "suffix zs s" "m_run c k zs = Some n"
  shows "n \<le> N"
proof (rule ccontr)
  assume "\<not> n \<le> N"
  then have "Suc N \<le> n" by simp
  then have p: "prefix (replicate (Suc N) c) (replicate n c)"
    by (metis le_Suc_ex prefixI replicate_add)
  from p run_prefix(1) [OF assms(3)] have "prefix (replicate (Suc N) c) zs"
    by (rule prefix_order.order_trans)
  then have "sublist (replicate (Suc N) c) zs" by (rule prefix_imp_sublist)
  moreover have "sublist zs s" using assms(2) by (rule suffix_imp_sublist)
  ultimately have "sublist (replicate (Suc N) c) s" by (rule sublist_order.order_trans)
  with assms(1) show False by simp
qed

lemma run_sub_id:
  assumes "\<not> sublist (replicate (Suc N) c) s" "N \<le> j" "Suc j = k \<or> j = k"
  shows "re_sub (m_run c k) (replicate j c) s = s"
proof (rule re_sub_id)
  fix zs n
  assume z: "suffix zs s" and m: "m_run c k zs = Some (Suc n)"
  from no_long_run [OF assms(1) z m] have "Suc n \<le> N" .
  moreover from m have "k \<le> Suc n" by (simp add: m_run_Some)
  ultimately have "Suc n = j" using assms(2,3) by linarith
  with run_prefix(2) [OF m] show "take (Suc n) zs = replicate j c" by simp
qed

lemma m_newlines_Some:
  assumes "m_newlines zs = Some n"
  shows "\<exists>cs. zs = NL # cs \<and> 2 \<le> count_list (takeWhile is_space cs) NL"
  using assms by (cases zs) (auto simp: m_newlines_def Let_def split: if_splits)

lemma m_newline_spaces_Some:
  assumes "m_newline_spaces zs = Some n"
  shows "\<exists>i cs. zs = replicate i SP @ NL # cs \<and>
           n = i + 1 + length (takeWhile (\<lambda>x. x = SP) cs)"
proof -
  let ?a = "takeWhile (\<lambda>x. x = SP) zs"
  let ?r = "dropWhile (\<lambda>x. x = SP) zs"
  from assms obtain cs where r: "?r = NL # cs"
    and n: "n = length ?a + 1 + length (takeWhile (\<lambda>x. x = SP) cs)"
    by (cases ?r) (auto simp: m_newline_spaces_def Let_def split: if_splits)
  have "zs = ?a @ ?r" by simp
  then have "zs = replicate (length ?a) SP @ NL # cs"
    using takeWhile_eq_replicate [of SP zs] r by simp
  with n show ?thesis by blast
qed

lemma regex_stage_tidy:
  assumes t: "tidy ls" and f: "\<forall>pat \<in> set forbidden. \<not> sublist pat (join [NL] ls)"
  shows "regex_stage (join [NL] ls) = join [NL] ls"
proof -
  let ?s = "join [NL] ls"
  have cr: "CR \<notin> set ?s" and tab: "TAB \<notin> set ?s"
    using f by (simp_all add: forbidden_def sublist_single)
  have sp: "\<not> sublist (replicate (Suc 1) SP) ?s"
    and bang: "\<not> sublist (replicate (Suc 3) 33) ?s"
    and quest: "\<not> sublist (replicate (Suc 3) 63) ?s"
    and dots: "\<not> sublist (replicate (Suc 3) 46) ?s"
    using f by (simp_all add: forbidden_def eval_nat_numeral)
  have 1: "re_sub m_line_ending [NL] ?s = ?s"
  proof (rule re_sub_id)
    fix zs n
    assume z: "suffix zs ?s" and m: "m_line_ending zs = Some (Suc n)"
    from m have "zs \<noteq> []" "hd zs = CR"
      by (cases zs rule: m_line_ending.cases; simp split: if_splits)+
    then have "CR \<in> set zs" by (cases zs) auto
    with z cr show "take (Suc n) zs = [NL]" using set_mono_suffix by blast
  qed
  have 2: "re_sub (m_char TAB) [SP] ?s = ?s"
  proof (rule re_sub_id)
    fix zs n
    assume z: "suffix zs ?s" and m: "m_char TAB zs = Some (Suc n)"
    from m have "TAB \<in> set zs" by (cases zs) (auto split: if_splits)
    with z tab show "take (Suc n) zs = [SP]" using set_mono_suffix by blast
  qed
  have 3: "re_sub (m_run SP 2) [SP] ?s = ?s"
    using run_sub_id [OF sp, of 1 2] by simp
  have 4: "re_sub m_newlines [NL, NL] ?s = ?s"
  proof (rule re_sub_id)
    fix zs n
    assume z: "suffix zs ?s" and m: "m_newlines zs = Some (Suc n)"
    from m_newlines_Some [OF m] obtain cs where cs: "zs = NL # cs"
      "2 \<le> count_list (takeWhile is_space cs) NL" by blast
    from tidy_after_newline [OF t z [unfolded cs(1)]] cs(2)
    show "take (Suc n) zs = [NL, NL]" by simp
  qed
  have 5: "re_sub m_newline_spaces [NL] ?s = ?s"
  proof (rule re_sub_id)
    fix zs n
    assume z: "suffix zs ?s" and m: "m_newline_spaces zs = Some (Suc n)"
    from m_newline_spaces_Some [OF m] obtain i cs where cs: "zs = replicate i SP @ NL # cs"
      "Suc n = i + 1 + length (takeWhile (\<lambda>x. x = SP) cs)" by blast
    have i: "i = 0"
    proof (rule ccontr)
      assume "i \<noteq> 0"
      then obtain i' where "i = Suc i'" by (cases i) auto
      then have "zs = replicate i' SP @ [SP, NL] @ cs"
        unfolding cs(1) by (simp add: replicate_append_same)
      then have "sublist [SP, NL] zs" by (metis sublist_appendI)
      moreover have "sublist zs ?s" using z by (rule suffix_imp_sublist)
      ultimately have "sublist [SP, NL] ?s" by (rule sublist_order.order_trans)
      with tidy_no_space_before_newline [OF t] show False by simp
    qed
    with cs(1) have zs: "zs = NL # cs" by simp
    from tidy_after_newline [OF t z [unfolded zs]] have "cs = [] \<or> hd cs \<noteq> SP" by simp
    then have "takeWhile (\<lambda>x. x = SP) cs = []" by (cases cs) auto
    with cs(2) i have "Suc n = 1" by simp
    with zs show "take (Suc n) zs = [NL]" by simp
  qed
  have 6: "re_sub (m_run 33 3) [33, 33, 33] ?s = ?s"
    using run_sub_id [OF bang, of 3 3] by (simp add: eval_nat_numeral)
  have 7: "re_sub (m_run 63 3) [63, 63, 63] ?s = ?s"
    using run_sub_id [OF quest, of 3 3] by (simp add: eval_nat_numeral)
  have 8: "re_sub (m_run 46 4) [46, 46, 46] ?s = ?s"
    using run_sub_id [OF dots, of 3 4] by (simp add: eval_nat_numeral)
  show ?thesis unfolding regex_stage_def by (simp only: 1 2 3 4 5 6 7 8)
qed

lemma cleaned_is_fixed:
  "enhanced_text_cleaning (enhanced_text_cleaning t) = enhanced_text_cleaning t"
proof -
  obtain ls where ls: "line_stage (regex_stage t) = join [NL] ls" "tidy ls"
    "ls = [] \<or> hd ls \<noteq> []"
    using line_stage_tidy [of "regex_stage t"] by blast
  have "\<not> sublist pat (join [NL] ls)" if p: "pat \<in> set forbidden" for pat
  proof
    assume "sublist pat (join [NL] ls)"
    then have s: "sublist pat (line_stage (regex_stage t))" by (simp only: ls(1))
    have "pat \<noteq> []" "NL \<notin> set pat" using p by (auto simp: forbidden_def)
    from line_stage_sublist [OF this s] regex_stage_avoids [OF p] show False by simp
  qed
  then have "regex_stage (join [NL] ls) = join [NL] ls"
    using ls(2) by (intro regex_stage_tidy) blast+
  moreover have "line_stage (join [NL] ls) = join [NL] ls"
    using ls(2,3) by (rule line_stage_join)
  ultimately show ?thesis by (simp add: enhanced_text_cleaning_stages ls(1))
qed

subsection \<open>The normalizer on an example\<close>

lemma messy_text_chars:
  "messy_text = [SP, 82, 101, 97, 100, SP, SP, SP, 109, 111, 114, 101, 46, 46, 46, 46,
     CR, NL, TAB, NL, NL, NL, 109, 101, 110, 117, NL,
     82, 101, 97, 108, 108, 121, 33, 33, 33, 33, 33, SP, SP]"
  by (simp add: messy_text_def str_def)

lemma messy_line_endings:
  "re_sub m_line_ending [NL] [SP, 82, 101, 97, 100, SP, SP, SP, 109, 111, 114, 101, 46, 46, 46, 46,
     CR, NL, TAB, NL, NL, NL, 109, 101, 110, 117, NL,
     82, 101, 97, 108, 108, 121, 33, 33, 33, 33, 33, SP, SP] =
  [SP, 82, 101, 97, 100, SP, SP, SP, 109, 111, 114, 101, 46, 46, 46, 46,
     NL, TAB, NL, NL, NL, 109, 101, 110, 117, NL,
     82, 101, 97, 108, 108, 121, 33, 33, 33, 33, 33, SP, SP]"
  by (simp add: re_sub.simps(2))

lemma messy_tabs:
  "re_sub (m_char TAB) [SP] [SP, 82, 101, 97, 100, SP, SP, SP, 109, 111, 114, 101, 46, 46, 46, 46,
     NL, TAB, NL, NL, NL, 109, 101, 110, 117, NL,
     82, 101, 97, 108, 108, 121, 33, 33, 33, 33, 33, SP, SP] =
  [SP, 82, 101, 97, 100, SP, SP, SP, 109, 111, 114, 101, 46, 46, 46, 46,
     NL, SP, NL, NL, NL, 109, 101, 110, 117, NL,
     82, 101, 97, 108, 108, 121, 33, 33, 33, 33, 33, SP, SP]"
  by (simp add: re_sub.simps(2) m_run_def)

lemma messy_spaces:
  "re_sub (m_run SP 2) [SP] [SP, 82, 101, 97, 100, SP, SP, SP, 109, 111, 114, 101, 46, 46, 46, 46,
     NL, SP, NL, NL, NL, 109, 101, 110, 117, NL,
     82, 101, 97, 108, 108, 121, 33, 33, 33, 33, 33, SP, SP] =
  [SP, 82, 101, 97, 100, SP, 109, 111, 114, 101, 46, 46, 46, 46,
     NL, SP, NL, NL, NL, 109, 101, 110, 117, NL,
     82, 101, 97, 108, 108, 121, 33, 33, 33, 33, 33, SP]"
  by (simp add: re_sub.simps(2) m_run_def)

lemma messy_newlines:
  "re_sub m_newlines [NL, NL] [SP, 82, 101, 97, 100, SP, 109, 111, 114, 101, 46, 46, 46, 46,
     NL, SP, NL, NL, NL, 109, 101, 110, 117, NL,
     82, 101, 97, 108, 108, 121, 33, 33, 33, 33, 33, SP] =
  [SP, 82, 101, 97, 100, SP, 109, 111, 114, 101, 46, 46, 46, 46,
     NL, NL, 109, 101, 110, 117, NL,
     82, 101, 97, 108, 108, 121, 33, 33, 33, 33, 33, SP]"
  by (simp add: re_sub.simps(2) m_newlines_def is_space_def)

lemma messy_newline_spaces:
  "re_sub m_newline_spaces [NL] [SP, 82, 101, 97, 100, SP, 109, 111, 114, 101, 46, 46, 46, 46,
     NL, NL, 109, 101, 110, 117, NL,
     82, 101, 97, 108, 108, 121, 33, 33, 33, 33, 33, SP] =
  [SP, 82, 101, 97, 100, SP, 109, 111, 114, 101, 46, 46, 46, 46,
     NL, NL, 109, 101, 110, 117, NL,
     82, 101, 97, 108, 108, 121, 33, 33, 33, 33, 33, SP]"
  by (simp add: re_sub.simps(2) m_newline_spaces_def)

lemma messy_bangs:
  "re_sub (m_run 33 3) [33, 33, 33] [SP, 82, 101, 97, 100, SP, 109, 111, 114, 101, 46, 46, 46, 46,
     NL, NL, 109, 101, 110, 117, NL,
     82, 101, 97, 108, 108, 121, 33, 33, 33, 33, 33, SP] =
  [SP, 82, 101, 97, 100, SP, 109, 111, 114, 101, 46, 46, 46, 46,
     NL, NL, 109, 101, 110, 117, NL,
     82, 101, 97, 108, 108, 121, 33, 33, 33, SP]"
  by (simp add: re_sub.simps(2) m_run_def)

lemma messy_questions:
  "re_sub (m_run 63 3) [63, 63, 63] [SP, 82, 101, 97, 100, SP, 109, 111, 114, 101, 46, 46, 46, 46,
     NL, NL, 109, 101, 110, 117, NL,
     82, 101, 97, 108, 108, 121, 33, 33, 33, SP] =
  [SP, 82, 101, 97, 100, SP, 109, 111, 114, 101, 46, 46, 46, 46,
     NL, NL, 109, 101, 110, 117, NL,
     82, 101, 97, 108, 108, 121, 33, 33, 33, SP]"
  by (simp add: re_sub.simps(2) m_run_def)

lemma messy_dots:
  "re_sub (m_run 46 4) [46, 46, 46] [SP, 82, 101, 97, 100, SP, 109, 111, 114, 101, 46, 46, 46, 46,
     NL, NL, 109, 101, 110, 117, NL,
     82, 101, 97, 108, 108, 121, 33, 33, 33, SP] =
  [SP, 82, 101, 97, 100, SP, 109, 111, 114, 101, 46, 46, 46,
     NL, NL, 109, 101, 110, 117, NL,
     82, 101, 97, 108, 108, 121, 33, 33, 33, SP]"
  by (simp add: re_sub.simps(2) m_run_def)

lemma regex_stage_messy_text:
  "regex_stage messy_text =
     [SP, 82, 101, 97, 100, SP, 109, 111, 114, 101, 46, 46, 46,
      NL, NL, 109, 101, 110, 117, NL,
      82, 101, 97, 108, 108, 121, 33, 33, 33, SP]"
  unfolding regex_stage_def messy_text_chars
  by (simp only: messy_line_endings messy_tabs messy_spaces messy_newlines
      messy_newline_spaces messy_bangs messy_questions messy_dots)

lemma messy_split:
  "split_nl [SP, 82, 101, 97, 100, SP, 109, 111, 114, 101, 46, 46, 46,
      NL, NL, 109, 101, 110, 117, NL,
      82, 101, 97, 108, 108, 121, 33, 33, 33, SP] =
   [[SP, 82, 101, 97, 100, SP, 109, 111, 114, 101, 46, 46, 46], [], [109, 101, 110, 117],
    [82, 101, 97, 108, 108, 121, 33, 33, 33, SP]]"
proof -
  let ?ls = "[[SP, 82, 101, 97, 100, SP, 109, 111, 114, 101, 46, 46, 46], [],
    [109, 101, 110, 117], [82, 101, 97, 108, 108, 121, 33, 33, 33, SP]]"
  have j: "join [NL] ?ls = [SP, 82, 101, 97, 100, SP, 109, 111, 114, 101, 46, 46, 46,
      NL, NL, 109, 101, 110, 117, NL, 82, 101, 97, 108, 108, 121, 33, 33, 33, SP]"
    by simp
  have "split_nl (join [NL] ?ls) = ?ls" by (rule split_nl_join) simp_all
  then show ?thesis by (simp only: j)
qed

lemma messy_keep_lines:
  "keep_lines [[SP, 82, 101, 97, 100, SP, 109, 111, 114, 101, 46, 46, 46], [], [109, 101, 110, 117],
    [82, 101, 97, 108, 108, 121, 33, 33, 33, SP]] =
   [[82, 101, 97, 100, SP, 109, 111, 114, 101, 46, 46, 46], [],
    [82, 101, 97, 108, 108, 121, 33, 33, 33]]"
  by (simp add: strip_def is_space_def)

lemma messy_limit_empty:
  "limit_empty 0 [[82, 101, 97, 100, SP, 109, 111, 114, 101, 46, 46, 46], [],
    [82, 101, 97, 108, 108, 121, 33, 33, 33]] =
   [[82, 101, 97, 100, SP, 109, 111, 114, 101, 46, 46, 46], [],
    [82, 101, 97, 108, 108, 121, 33, 33, 33]]"
  by simp

lemma messy_strip:
  "strip (join [NL] [[82, 101, 97, 100, SP, 109, 111, 114, 101, 46, 46, 46], [],
    [82, 101, 97, 108, 108, 121, 33, 33, 33]]) =
   [82, 101, 97, 100, SP, 109, 111, 114, 101, 46, 46, 46, NL, NL,
    82, 101, 97, 108, 108, 121, 33, 33, 33]"
  by (simp add: strip_def is_space_def)

lemma messy_stages:
  "enhanced_text_cleaning messy_text = line_stage (regex_stage messy_text)"
  by (rule enhanced_text_cleaning_stages)

lemma messy_line_stage:
  "line_stage (regex_stage messy_text) =
   [82, 101, 97, 100, SP, 109, 111, 114, 101, 46, 46, 46, NL, NL,
    82, 101, 97, 108, 108, 121, 33, 33, 33]"
  unfolding regex_stage_messy_text line_stage_def
  by (simp only: messy_split messy_keep_lines messy_limit_empty messy_strip)

lemma messy_result:
  "str ''Read more...'' @ [NL, NL] @ str ''Really!!!'' =
   [82, 101, 97, 100, SP, 109, 111, 114, 101, 46, 46, 46, NL, NL,
    82, 101, 97, 108, 108, 121, 33, 33, 33]"
  by (simp add: str_def)

lemma messy_text_cleaned:
  "enhanced_text_cleaning messy_text = str ''Read more...'' @ [NL, NL] @ str ''Really!!!''"
  by (simp only: messy_stages messy_line_stage messy_result)

text \<open>
  Claim C6: the normalizer is idempotent.  For every text \<open>x\<close>, cleaning the cleaned text
  gives the cleaned text again.
\<close>

theorem enhanced_text_cleaning_idempotent:
  "enhanced_text_cleaning (enhanced_text_cleaning x) = enhanced_text_cleaning x"
  by (rule cleaned_is_fixed)

theorem enhanced_text_cleaning_idempotent_witness:
  "enhanced_text_cleaning messy_text = str ''Read more...'' @ [NL, NL] @ str ''Really!!!'' \<and>
   enhanced_text_cleaning (str ''Read more...'' @ [NL, NL] @ str ''Really!!!'') =
     str ''Read more...'' @ [NL, NL] @ str ''Really!!!''"
  using enhanced_text_cleaning_idempotent [of messy_text]
  by (simp only: messy_text_cleaned)

end
